theory Spec2Isabelle
  imports Complex_Main "HOL-Library.Word" "HOL-Library.Log_Nat"
begin

section \<open>Double-precision values\<close>

text \<open>
  The C type \<^verbatim>\<open>double\<close> is IEEE 754 binary64. A value is a NaN, an infinity, the
  negative zero, or a finite number \<open>Fin r\<close> (with \<open>Fin 0\<close> the positive zero). Every
  arithmetic operation computes the exact real result and rounds it once, to nearest with
  ties to even, on the binary64 grid (53 significant bits, least exponent \<open>-1022\<close>,
  overflow to an infinity from \<open>2 ^ 1024\<close> on). NaN payloads are not distinguished.
\<close>

datatype double = NaN | PInf | NInf | NZero | Fin real

fun valof :: "double \<Rightarrow> real" where
  "valof (Fin r) = r"
| "valof d = 0"

fun is_inf :: "double \<Rightarrow> bool" where
  "is_inf PInf = True"
| "is_inf NInf = True"
| "is_inf d = False"

text \<open>The sign bit: \<open>True\<close> for a negative value.\<close>

fun sign :: "double \<Rightarrow> bool" where
  "sign NInf = True"
| "sign NZero = True"
| "sign (Fin r) = (r < 0)"
| "sign d = False"

text \<open>The C comparison \<^verbatim>\<open>d == 0\<close>: both zeros compare equal to zero.\<close>

definition is_zero :: "double \<Rightarrow> bool" where
  "is_zero d = (d = Fin 0 \<or> d = NZero)"

definition inf_of :: "bool \<Rightarrow> double" where
  "inf_of s = (if s then NInf else PInf)"

definition zero_of :: "bool \<Rightarrow> double" where
  "zero_of s = (if s then NZero else Fin 0)"

text \<open>\<open>ilog2 x\<close> is the binary exponent of a positive \<open>x\<close>: \<open>2 ^ e \<le> x < 2 ^ (e + 1)\<close>.\<close>

definition ilog2 :: "real \<Rightarrow> int" where
  "ilog2 x = (if 1 \<le> x then bitlen \<lfloor>x\<rfloor> - 1 else - bitlen (\<lceil>1 / x\<rceil> - 1))"

text \<open>Rounding a non-negative real to an integer, ties to even.\<close>

definition rhe :: "real \<Rightarrow> int" where
  "rhe m = (let f = \<lfloor>m\<rfloor> in
     if m - of_int f < 1 / 2 then f
     else if 1 / 2 < m - of_int f then f + 1
     else if even f then f else f + 1)"

text \<open>The unit in the last place of \<open>x \<noteq> 0\<close>; below \<open>2 powi (-1022)\<close> the grid is subnormal.\<close>

definition ulp :: "real \<Rightarrow> real" where
  "ulp x = 2 powi (max (ilog2 \<bar>x\<bar>) (- 1022) - 52)"

definition rnd :: "real \<Rightarrow> real" where
  "rnd x = (if x = 0 then 0 else sgn x * (of_int (rhe (\<bar>x\<bar> / ulp x)) * ulp x))"

text \<open>
  \<open>mk s x\<close> delivers the exact result \<open>x\<close> as a double; \<open>s\<close> is the sign a zero result
  takes.
\<close>

definition mk :: "bool \<Rightarrow> real \<Rightarrow> double" where
  "mk s x = (let q = rnd x in
     if 2 ^ 1024 \<le> \<bar>q\<bar> then inf_of (x < 0)
     else if q = 0 then zero_of s
     else Fin q)"

fun dneg :: "double \<Rightarrow> double" where
  "dneg NaN = NaN"
| "dneg PInf = NInf"
| "dneg NInf = PInf"
| "dneg NZero = Fin 0"
| "dneg (Fin r) = (if r = 0 then NZero else Fin (- r))"

definition dadd :: "double \<Rightarrow> double \<Rightarrow> double" where
  "dadd x y =
     (if x = NaN \<or> y = NaN then NaN
      else if is_inf x \<and> is_inf y then (if x = y then x else NaN)
      else if is_inf x then x
      else if is_inf y then y
      else if valof x + valof y = 0 then zero_of (sign x \<and> sign y)
      else mk False (valof x + valof y))"

definition dsub :: "double \<Rightarrow> double \<Rightarrow> double" where
  "dsub x y = dadd x (dneg y)"

definition dmul :: "double \<Rightarrow> double \<Rightarrow> double" where
  "dmul x y =
     (if x = NaN \<or> y = NaN then NaN
      else if (is_inf x \<and> is_zero y) \<or> (is_zero x \<and> is_inf y) then NaN
      else if is_inf x \<or> is_inf y then inf_of (sign x \<noteq> sign y)
      else mk (sign x \<noteq> sign y) (valof x * valof y))"

definition ddiv :: "double \<Rightarrow> double \<Rightarrow> double" where
  "ddiv x y =
     (if x = NaN \<or> y = NaN then NaN
      else if (is_inf x \<and> is_inf y) \<or> (is_zero x \<and> is_zero y) then NaN
      else if is_inf x then inf_of (sign x \<noteq> sign y)
      else if is_inf y then zero_of (sign x \<noteq> sign y)
      else if is_zero y then inf_of (sign x \<noteq> sign y)
      else mk (sign x \<noteq> sign y) (valof x / valof y))"


section \<open>Memory\<close>

text \<open>
  The heap is a list of blocks; an address is an index into it, so a newly allocated block
  has an address no earlier pointer holds. A block is a C array of doubles or a Python
  list of float objects. A freed block is \<open>None\<close>. A pointer is \<open>None\<close> (the C
  \<^verbatim>\<open>NULL\<close>) or an address. Every access the C standard leaves undefined is a fault.
\<close>

datatype fault = NullDeref | BadPointer | OutOfBounds | SignedOverflow

type_synonym heap = "double list option list"
type_synonym ptr = "nat option"

definition deref :: "heap \<Rightarrow> ptr \<Rightarrow> double list option" where
  "deref h p = (case p of None \<Rightarrow> None | Some a \<Rightarrow> if a < length h then h ! a else None)"

text \<open>Reading \<^verbatim>\<open>p[i]\<close>.\<close>

definition load :: "heap \<Rightarrow> ptr \<Rightarrow> nat \<Rightarrow> fault + double" where
  "load h p i =
     (case p of
        None \<Rightarrow> Inl NullDeref
      | Some a \<Rightarrow>
          (case deref h p of
             None \<Rightarrow> Inl BadPointer
           | Some blk \<Rightarrow> if i < length blk then Inr (blk ! i) else Inl OutOfBounds))"

text \<open>Writing \<^verbatim>\<open>p[i] = v\<close>.\<close>

definition store :: "heap \<Rightarrow> ptr \<Rightarrow> nat \<Rightarrow> double \<Rightarrow> fault + heap" where
  "store h p i v =
     (case p of
        None \<Rightarrow> Inl NullDeref
      | Some a \<Rightarrow>
          (case deref h p of
             None \<Rightarrow> Inl BadPointer
           | Some blk \<Rightarrow>
               if i < length blk then Inr (h[a := Some (blk[i := v])]) else Inl OutOfBounds))"

text \<open>Allocation appends a block to the heap.\<close>

definition alloc :: "heap \<Rightarrow> double list \<Rightarrow> heap \<times> ptr" where
  "alloc h blk = (h @ [Some blk], Some (length h))"

section \<open>The C kernels (carthimetic/main.c)\<close>

text \<open>
  \<^verbatim>\<open>void vecadd(unsigned int N, double *a, double *b, double *c)\<close>, and \<^verbatim>\<open>vecmul\<close> and
  \<^verbatim>\<open>vecdiv\<close>, are one loop with three operators:
  \<^verbatim>\<open>for (unsigned int i = 0; i < N; i++) c[i] = a[i] OP b[i];\<close>
  The counter is a 32-bit unsigned word.
\<close>

function vec_loop ::
  "(double \<Rightarrow> double \<Rightarrow> double) \<Rightarrow> 32 word \<Rightarrow> ptr \<Rightarrow> ptr \<Rightarrow> ptr \<Rightarrow> 32 word \<Rightarrow> heap
     \<Rightarrow> fault + heap" where
  "vec_loop f N a b c i h =
     (if i < N then
        (case load h a (unat i) of
           Inl e \<Rightarrow> Inl e
         | Inr x \<Rightarrow>
             (case load h b (unat i) of
                Inl e \<Rightarrow> Inl e
              | Inr y \<Rightarrow>
                  (case store h c (unat i) (f x y) of
                     Inl e \<Rightarrow> Inl e
                   | Inr h' \<Rightarrow> vec_loop f N a b c (i + 1) h')))
      else Inr h)"
  by pat_completeness auto
termination
proof (relation "measure (\<lambda>(f, N, a, b, c, i, h). unat N - unat i)")
  show "wf (measure (\<lambda>(f, N, a, b, c, i, h). unat N - unat i))" by simp
next
  fix f :: "double \<Rightarrow> double \<Rightarrow> double" and N i :: "32 word" and a b c :: ptr
    and h h' :: heap and x y :: double
  assume lt: "i < N"
  then have "unat i < unat N" by (simp add: word_less_nat_alt)
  moreover have "unat (i + 1) = unat i + 1"
    using lt
    by (metis (no_types, lifting) add.commute add_cancel_left_right inc_i
        inc_le unat_plus_simple unsigned_0 unsigned_1 word_gt_0)
  ultimately show "((f, N, a, b, c, i + 1, h'), (f, N, a, b, c, i, h))
      \<in> measure (\<lambda>(f, N, a, b, c, i, h). unat N - unat i)"
    by simp
qed

declare vec_loop.simps [simp del]

definition vecadd :: "32 word \<Rightarrow> ptr \<Rightarrow> ptr \<Rightarrow> ptr \<Rightarrow> heap \<Rightarrow> fault + heap" where
  "vecadd N a b c h = vec_loop dadd N a b c 0 h"

definition vecmul :: "32 word \<Rightarrow> ptr \<Rightarrow> ptr \<Rightarrow> ptr \<Rightarrow> heap \<Rightarrow> fault + heap" where
  "vecmul N a b c h = vec_loop dmul N a b c 0 h"

definition vecdiv :: "32 word \<Rightarrow> ptr \<Rightarrow> ptr \<Rightarrow> ptr \<Rightarrow> heap \<Rightarrow> fault + heap" where
  "vecdiv N a b c h = vec_loop ddiv N a b c 0 h"

section \<open>The C++ kernels (cpparthimetic/main.cc)\<close>

text \<open>
  \<^verbatim>\<open>std::transform(a.begin(), a.end(), b.begin(), std::back_inserter(c), op)\<close> walks
  \<open>a\<close> to its end and \<open>b\<close> alongside, appending to \<open>c\<close>. It never compares the
  second iterator with \<open>b.end()\<close>: reading past the end of \<open>b\<close> is undefined.
\<close>

fun transform ::
  "double list \<Rightarrow> double list \<Rightarrow> double list \<Rightarrow> (double \<Rightarrow> double \<Rightarrow> double)
     \<Rightarrow> fault + double list" where
  "transform [] ys c f = Inr c"
| "transform (x # xs) [] c f = Inl OutOfBounds"
| "transform (x # xs) (y # ys) c f = transform xs ys (c @ [f x y]) f"

definition vecadd_cc :: "double list \<Rightarrow> double list \<Rightarrow> fault + double list" where
  "vecadd_cc a b = transform a b [] dadd"

definition vecmul_cc :: "double list \<Rightarrow> double list \<Rightarrow> fault + double list" where
  "vecmul_cc a b = transform a b [] dmul"

definition vecdiv_cc :: "double list \<Rightarrow> double list \<Rightarrow> fault + double list" where
  "vecdiv_cc a b = transform a b [] ddiv"


section \<open>The Python wrappers (carthimetic/main.c)\<close>

text \<open>
  The interpreter's functions, as the wrappers use them. \<^verbatim>\<open>PyList_GetItem\<close> returns
  \<^verbatim>\<open>NULL\<close> for an index out of range; the macro \<^verbatim>\<open>PyFloat_AS_DOUBLE\<close> reads the
  object's value without any check, so it faults on \<^verbatim>\<open>NULL\<close>. \<^verbatim>\<open>PyMem_Calloc\<close>
  and \<^verbatim>\<open>PyList_New\<close> return \<^verbatim>\<open>NULL\<close> for a negative count (as a \<^verbatim>\<open>size_t\<close> it
  exceeds every limit); running out of memory is not modelled. The items of a new list
  are unset until \<^verbatim>\<open>PyList_SET_ITEM\<close> stores them; the block holds zeros meanwhile.
  Reference counts are not modelled.
\<close>

definition PyList_Size :: "heap \<Rightarrow> ptr \<Rightarrow> fault + int" where
  "PyList_Size h l = (case deref h l of None \<Rightarrow> Inl BadPointer | Some xs \<Rightarrow> Inr (int (length xs)))"

definition PyList_GetItem :: "heap \<Rightarrow> ptr \<Rightarrow> int \<Rightarrow> double option" where
  "PyList_GetItem h l i =
     (case deref h l of
        None \<Rightarrow> None
      | Some xs \<Rightarrow> if 0 \<le> i \<and> i < int (length xs) then Some (xs ! nat i) else None)"

definition PyFloat_AS_DOUBLE :: "double option \<Rightarrow> fault + double" where
  "PyFloat_AS_DOUBLE ob = (case ob of None \<Rightarrow> Inl NullDeref | Some d \<Rightarrow> Inr d)"

definition PyMem_Calloc :: "heap \<Rightarrow> int \<Rightarrow> heap \<times> ptr" where
  "PyMem_Calloc h nelem = (if nelem < 0 then (h, None) else alloc h (replicate (nat nelem) (Fin 0)))"

definition PyMem_Free :: "heap \<Rightarrow> ptr \<Rightarrow> heap" where
  "PyMem_Free h p = (case p of None \<Rightarrow> h | Some a \<Rightarrow> h[a := None])"

definition PyList_New :: "heap \<Rightarrow> int \<Rightarrow> heap \<times> ptr" where
  "PyList_New h len = (if len < 0 then (h, None) else alloc h (replicate (nat len) (Fin 0)))"

definition PyList_SET_ITEM :: "heap \<Rightarrow> ptr \<Rightarrow> int \<Rightarrow> double \<Rightarrow> fault + heap" where
  "PyList_SET_ITEM h l i v = store h l (nat i) v"

text \<open>
  \<^verbatim>\<open>for (int i = 0; i < arraySize; i++) { a[i] = PyFloat_AS_DOUBLE(PyList_GetItem(listA, i));
  b[i] = PyFloat_AS_DOUBLE(PyList_GetItem(listB, i)); }\<close>
  The counter stays below \<open>arraySize\<close>, an \<^verbatim>\<open>int\<close>, so incrementing it cannot overflow.
\<close>

function copy_loop :: "ptr \<Rightarrow> ptr \<Rightarrow> ptr \<Rightarrow> ptr \<Rightarrow> int \<Rightarrow> int \<Rightarrow> heap \<Rightarrow> fault + heap" where
  "copy_loop listA listB a b arraySize i h =
     (if i < arraySize then
        (case PyFloat_AS_DOUBLE (PyList_GetItem h listA i) of
           Inl e \<Rightarrow> Inl e
         | Inr x \<Rightarrow>
             (case store h a (nat i) x of
                Inl e \<Rightarrow> Inl e
              | Inr h1 \<Rightarrow>
                  (case PyFloat_AS_DOUBLE (PyList_GetItem h1 listB i) of
                     Inl e \<Rightarrow> Inl e
                   | Inr y \<Rightarrow>
                       (case store h1 b (nat i) y of
                          Inl e \<Rightarrow> Inl e
                        | Inr h2 \<Rightarrow> copy_loop listA listB a b arraySize (i + 1) h2))))
      else Inr h)"
  by pat_completeness auto
termination
  by (relation "measure (\<lambda>(listA, listB, a, b, arraySize, i, h). nat (arraySize - i))") auto

declare copy_loop.simps [simp del]

text \<open>
  \<^verbatim>\<open>for (int i = 0; i < arraySize; i++) PyList_SET_ITEM(listC, i, PyFloat_FromDouble(c[i]));\<close>
\<close>

function fill_loop :: "ptr \<Rightarrow> ptr \<Rightarrow> int \<Rightarrow> int \<Rightarrow> heap \<Rightarrow> fault + heap" where
  "fill_loop listC c arraySize i h =
     (if i < arraySize then
        (case load h c (nat i) of
           Inl e \<Rightarrow> Inl e
         | Inr v \<Rightarrow>
             (case PyList_SET_ITEM h listC i v of
                Inl e \<Rightarrow> Inl e
              | Inr h' \<Rightarrow> fill_loop listC c arraySize (i + 1) h'))
      else Inr h)"
  by pat_completeness auto
termination
  by (relation "measure (\<lambda>(listC, c, arraySize, i, h). nat (arraySize - i))") auto

declare fill_loop.simps [simp del]

text \<open>
  The three wrappers \<^verbatim>\<open>pyvecadd\<close>, \<^verbatim>\<open>pyvecmul\<close> and \<^verbatim>\<open>pyvecdiv\<close> have the same body
  around their kernel. The argument tuple has been parsed with \<^verbatim>\<open>"O!O!"\<close>: \<open>listA\<close>
  and \<open>listB\<close> point to list objects. \<^verbatim>\<open>arraySize\<close> is an \<^verbatim>\<open>int\<close>: the length of
  \<open>listA\<close>, a \<^verbatim>\<open>Py_ssize_t\<close>, is cut to 32 bits and read as signed; the kernel takes it
  as an \<^verbatim>\<open>unsigned int\<close>. The length of \<open>listB\<close> is never read.
\<close>

definition pyvec ::
  "(32 word \<Rightarrow> ptr \<Rightarrow> ptr \<Rightarrow> ptr \<Rightarrow> heap \<Rightarrow> fault + heap) \<Rightarrow> heap \<Rightarrow> ptr \<Rightarrow> ptr
     \<Rightarrow> fault + heap \<times> ptr" where
  "pyvec kern h listA listB =
     (case PyList_Size h listA of
        Inl e \<Rightarrow> Inl e
      | Inr n \<Rightarrow>
          (let arraySize = sint (word_of_int n :: 32 word);
               (h1, a) = PyMem_Calloc h arraySize;
               (h2, b) = PyMem_Calloc h1 arraySize;
               (h3, c) = PyMem_Calloc h2 arraySize
           in case copy_loop listA listB a b arraySize 0 h3 of
                Inl e \<Rightarrow> Inl e
              | Inr h4 \<Rightarrow>
                  (case kern (word_of_int arraySize) a b c h4 of
                     Inl e \<Rightarrow> Inl e
                   | Inr h5 \<Rightarrow>
                       (let (h6, listC) = PyList_New h5 arraySize
                        in case fill_loop listC c arraySize 0 h6 of
                             Inl e \<Rightarrow> Inl e
                           | Inr h7 \<Rightarrow>
                               Inr (PyMem_Free (PyMem_Free (PyMem_Free h7 a) b) c, listC)))))"

definition pyvecadd :: "heap \<Rightarrow> ptr \<Rightarrow> ptr \<Rightarrow> fault + heap \<times> ptr" where
  "pyvecadd = pyvec vecadd"

definition pyvecmul :: "heap \<Rightarrow> ptr \<Rightarrow> ptr \<Rightarrow> fault + heap \<times> ptr" where
  "pyvecmul = pyvec vecmul"

definition pyvecdiv :: "heap \<Rightarrow> ptr \<Rightarrow> ptr \<Rightarrow> fault + heap \<times> ptr" where
  "pyvecdiv = pyvec vecdiv"

section \<open>The approximation of pi (cpiapprox/main.c)\<close>

text \<open>
  \<^verbatim>\<open>for (int i = 0; i < partitions; i++) { double x = dh * (i - 0.5); area += 4.0/(1.0 + x*x); }\<close>
  The counter is an \<^verbatim>\<open>int\<close> and \<open>partitions\<close> an \<^verbatim>\<open>unsigned int\<close>: the comparison
  converts the counter to unsigned. Incrementing the counter at \<^verbatim>\<open>INT_MAX\<close> overflows,
  which C leaves undefined: the fault \<open>SignedOverflow\<close>. The conversions of the counter and
  of \<open>partitions\<close> to \<^verbatim>\<open>double\<close> are exact.
\<close>

function pi_loop :: "32 word \<Rightarrow> double \<Rightarrow> int \<Rightarrow> double \<Rightarrow> fault + double" where
  "pi_loop partitions dh i area =
     (if (word_of_int i :: 32 word) < partitions then
        (let x = dmul dh (dsub (Fin (of_int i)) (Fin (1 / 2)));
             area' = dadd area (ddiv (Fin 4) (dadd (Fin 1) (dmul x x)))
         in if i < 2147483647 then pi_loop partitions dh (i + 1) area'
            else Inl SignedOverflow)
      else Inr area)"
  by pat_completeness auto
termination
  by (relation "measure (\<lambda>(partitions, dh, i, area). nat (2147483647 - i))") auto

declare pi_loop.simps [simp del]

text \<open>
  \<^verbatim>\<open>compute_pi\<close> after \<^verbatim>\<open>PyArg_ParseTuple(args, "I", &partitions)\<close> has stored the
  argument: \<^verbatim>\<open>dh = 1.0/partitions\<close>, the loop, and \<^verbatim>\<open>PyFloat_FromDouble(area*dh)\<close>.
\<close>

definition compute_pi :: "32 word \<Rightarrow> fault + double" where
  "compute_pi partitions =
     (let dh = ddiv (Fin 1) (Fin (real (unat partitions)))
      in case pi_loop partitions dh 0 (Fin 0) of
           Inl e \<Rightarrow> Inl e
         | Inr area \<Rightarrow> Inr (dmul area dh))"

text \<open>
  The same loop where the increment of an \<^verbatim>\<open>int\<close> wraps around, as gcc and clang compile
  it under \<^verbatim>\<open>-fwrapv\<close>, a flag that the build of a CPython extension module takes over from
  the interpreter. The counter is held as its 32-bit pattern \<open>i\<close>: \<^verbatim>\<open>i < partitions\<close> is the
  unsigned comparison of the pattern, \<open>sint i\<close> is the value that \<^verbatim>\<open>i - 0.5\<close> converts to
  \<^verbatim>\<open>double\<close>, and the increment of \<^verbatim>\<open>INT_MAX\<close> is \<^verbatim>\<open>INT_MIN\<close>. Nothing faults.
\<close>

function pi_loop_wrapv :: "32 word \<Rightarrow> double \<Rightarrow> 32 word \<Rightarrow> double \<Rightarrow> double" where
  "pi_loop_wrapv partitions dh i area =
     (if i < partitions then
        (let x = dmul dh (dsub (Fin (of_int (sint i))) (Fin (1 / 2)));
             area' = dadd area (ddiv (Fin 4) (dadd (Fin 1) (dmul x x)))
         in pi_loop_wrapv partitions dh (i + 1) area')
      else area)"
  by pat_completeness auto
termination
proof (relation "measure (\<lambda>(partitions, dh, i, area). unat partitions - unat i)")
  show "wf (measure (\<lambda>(partitions, dh, i, area). unat partitions - unat i))" by simp
next
  fix partitions i :: "32 word" and dh area x xa :: double
  assume lt: "i < partitions"
  then have "unat i < unat partitions" by (simp add: word_less_nat_alt)
  moreover have "unat (i + 1) = unat i + 1"
    using lt
    by (metis (no_types, lifting) add.commute add_cancel_left_right inc_i
        inc_le unat_plus_simple unsigned_0 unsigned_1 word_gt_0)
  ultimately show "((partitions, dh, i + 1, xa), (partitions, dh, i, area))
      \<in> measure (\<lambda>(partitions, dh, i, area). unat partitions - unat i)"
    by simp
qed

declare pi_loop_wrapv.simps [simp del]

text \<open>\<^verbatim>\<open>compute_pi\<close> around that loop.\<close>

definition compute_pi_wrapv :: "32 word \<Rightarrow> double" where
  "compute_pi_wrapv partitions =
     (let dh = ddiv (Fin 1) (Fin (real (unat partitions)))
      in dmul (pi_loop_wrapv partitions dh 0 (Fin 0)) dh)"

section \<open>The particle record (minimization/particle.h)\<close>

record Particle =
  id_p :: "32 word"
  x_p :: double
  y_p :: double
  mass_p :: double

text \<open>
  \<^verbatim>\<open>Particle_new\<close>: \<open>allocated\<close> is what \<^verbatim>\<open>type->tp_alloc(type, 0)\<close> returned, \<open>None\<close> for
  \<^verbatim>\<open>NULL\<close>. It is the only function of the header that constructs the record. The
  declaration of the type object \<^verbatim>\<open>MDParticleType\<close> is unfinished (it is not valid C) and
  names \<^verbatim>\<open>PyType_GenericNew\<close> in its \<^verbatim>\<open>tp_new\<close> slot.
\<close>

definition Particle_new :: "Particle option \<Rightarrow> Particle option" where
  "Particle_new allocated =
     (case allocated of
        None \<Rightarrow> None
      | Some self \<Rightarrow> Some (self\<lparr>id_p := 0, mass_p := Fin 1, x_p := Fin 0, y_p := Fin 0\<rparr>))"

section \<open>Auxiliary notions for the proofs\<close>

text \<open>
  \<open>fill_range i n g dst\<close> is the array \<open>dst\<close> after a loop has stored \<open>g k\<close> at every
  index \<open>k\<close> from \<open>i\<close> up to \<open>n - 1\<close>.
\<close>

definition fill_range :: "nat \<Rightarrow> nat \<Rightarrow> (nat \<Rightarrow> 'a) \<Rightarrow> 'a list \<Rightarrow> 'a list" where
  "fill_range i n g dst = map (\<lambda>k. if i \<le> k \<and> k < n then g k else dst ! k) [0..<length dst]"

text \<open>
  \<open>elementwise f a b c\<close>: the sequence \<open>c\<close> has the length of \<open>a\<close> and holds
  \<open>f (a[i]) (b[i])\<close> at every index \<open>i\<close>.
\<close>

definition elementwise ::
  "(double \<Rightarrow> double \<Rightarrow> double) \<Rightarrow> double list \<Rightarrow> double list \<Rightarrow> double list \<Rightarrow> bool" where
  "elementwise f a b c \<longleftrightarrow> length c = length a \<and> (\<forall>i<length a. c ! i = f (a ! i) (b ! i))"

text \<open>
  \<open>arrays_at h N a b ci xs ys\<close>: a call \<^verbatim>\<open>kernel(N, a, b, c)\<close> as the parameters are
  declared. \<open>a\<close> and \<open>b\<close> point to the arrays \<open>xs\<close> and \<open>ys\<close> of \<open>N\<close> doubles, and
  \<open>c\<close>, the address \<open>ci\<close>, to an array of \<open>N\<close> doubles that is neither of them
  (\<^verbatim>\<open>__restrict__\<close>).
\<close>

definition arrays_at ::
  "heap \<Rightarrow> 32 word \<Rightarrow> ptr \<Rightarrow> ptr \<Rightarrow> nat \<Rightarrow> double list \<Rightarrow> double list \<Rightarrow> bool" where
  "arrays_at h N a b ci xs ys \<longleftrightarrow>
     deref h a = Some xs \<and> deref h b = Some ys \<and> length xs = unat N \<and> length ys = unat N
       \<and> a \<noteq> Some ci \<and> b \<noteq> Some ci
       \<and> (case deref h (Some ci) of None \<Rightarrow> False | Some zs \<Rightarrow> length zs = unat N)"

text \<open>The array a C kernel leaves at \<open>c\<close>, to compare with what a C++ kernel returns.\<close>

fun out_of :: "fault + heap \<Rightarrow> nat \<Rightarrow> fault + double list" where
  "out_of (Inl e) ci = Inl e"
| "out_of (Inr h) ci = (case deref h (Some ci) of None \<Rightarrow> Inl BadPointer | Some zs \<Rightarrow> Inr zs)"

text \<open>
  The estimate as the specification words it: the step \<open>dh = 1 / n\<close>, the sample points
  \<open>x\<^sub>i = dh * (i - 0.5)\<close>, the terms \<open>4 / (1 + x\<^sub>i\<^sup>2)\<close>, their sum over \<open>i = 0, \<dots>, m - 1\<close>
  accumulated in that order, and \<open>dh\<close> times the sum, in double precision.
\<close>

definition pi_dh :: "nat \<Rightarrow> double" where
  "pi_dh n = ddiv (Fin 1) (Fin (real n))"

definition pi_x :: "nat \<Rightarrow> nat \<Rightarrow> double" where
  "pi_x n i = dmul (pi_dh n) (dsub (Fin (real i)) (Fin (1 / 2)))"

definition pi_term :: "nat \<Rightarrow> nat \<Rightarrow> double" where
  "pi_term n i = ddiv (Fin 4) (dadd (Fin 1) (dmul (pi_x n i) (pi_x n i)))"

definition pi_sum :: "nat \<Rightarrow> nat \<Rightarrow> double" where
  "pi_sum n m = foldl (\<lambda>area i. dadd area (pi_term n i)) (Fin 0) [0..<m]"

definition riemann_pi :: "nat \<Rightarrow> double" where
  "riemann_pi n = dmul (pi_dh n) (pi_sum n n)"

text \<open>
  For the error analysis: a real is \<open>in_range\<close> when rounding it neither underflows nor
  overflows; \<open>ulo = 1 - 1 / 2 ^ 53\<close> is the least factor one rounding applies there; and
  \<open>approx k r x\<close> says that the magnitude of \<open>r\<close> is the positive \<open>x\<close> up to \<open>k\<close>
  roundings.
\<close>

definition in_range :: "real \<Rightarrow> bool" where
  "in_range r \<longleftrightarrow> 2 powi (- 1022) \<le> \<bar>r\<bar> \<and> \<bar>r\<bar> \<le> 2 ^ 1000"

definition ulo :: real where
  "ulo = 1 - 1 / 2 ^ 53"

definition approx :: "nat \<Rightarrow> real \<Rightarrow> real \<Rightarrow> bool" where
  "approx k r x \<longleftrightarrow> 0 < x \<and> x * ulo ^ k \<le> \<bar>r\<bar> \<and> \<bar>r\<bar> * ulo ^ k \<le> x"

text \<open>
  The reals that the loop of \<^verbatim>\<open>compute_pi\<close> holds in its doubles, as long as nothing
  underflows or overflows (\<open>r_dh\<close>, \<open>r_x\<close>, \<open>r_term\<close>, \<open>r_sum\<close>, \<open>r_pi\<close>), and the exact
  term \<open>4 / (1 + x\<^sub>i\<^sup>2)\<close> of the sum (\<open>e_term\<close>).
\<close>

definition r_dh :: "nat \<Rightarrow> real" where
  "r_dh n = rnd (1 / real n)"

definition r_x :: "nat \<Rightarrow> nat \<Rightarrow> real" where
  "r_x n i = rnd (r_dh n * rnd (real i - 1 / 2))"

definition r_term :: "nat \<Rightarrow> nat \<Rightarrow> real" where
  "r_term n i = rnd (4 / rnd (1 + rnd (r_x n i * r_x n i)))"

primrec r_sum :: "nat \<Rightarrow> nat \<Rightarrow> real" where
  "r_sum n 0 = 0"
| "r_sum n (Suc k) = rnd (r_sum n k + r_term n k)"

definition r_pi :: "nat \<Rightarrow> real" where
  "r_pi n = rnd (r_sum n n * r_dh n)"

definition e_term :: "nat \<Rightarrow> nat \<Rightarrow> real" where
  "e_term n i = 4 / (1 + ((real i - 1 / 2) / real n)\<^sup>2)"

text \<open>
  The loop for any sequence of counter values: \<open>counter k\<close> is the value of a wrapping
  \<^verbatim>\<open>int\<close> counter in iteration \<open>k\<close>, \<open>pi_term_at dh c\<close> the term that the loop body adds
  when the counter is \<open>c\<close>, and \<open>pi_sum_at dh cf m\<close> the sum after \<open>m\<close> iterations with the
  counter values \<open>cf 0, \<dots>, cf (m - 1)\<close>. Then the reals that these doubles hold
  (\<open>r_x_at\<close>, \<open>r_term_at\<close>, \<open>r_sum_at\<close>, \<open>r_pi_at\<close>) and the exact term (\<open>e_term_at\<close>).
\<close>

definition counter :: "nat \<Rightarrow> int" where
  "counter k = sint (word_of_nat k :: 32 word)"

definition pi_term_at :: "double \<Rightarrow> int \<Rightarrow> double" where
  "pi_term_at dh c =
     (let x = dmul dh (dsub (Fin (of_int c)) (Fin (1 / 2)))
      in ddiv (Fin 4) (dadd (Fin 1) (dmul x x)))"

definition pi_sum_at :: "double \<Rightarrow> (nat \<Rightarrow> int) \<Rightarrow> nat \<Rightarrow> double" where
  "pi_sum_at dh cf m = foldl (\<lambda>area k. dadd area (pi_term_at dh (cf k))) (Fin 0) [0..<m]"

definition r_x_at :: "nat \<Rightarrow> int \<Rightarrow> real" where
  "r_x_at n c = rnd (r_dh n * rnd (of_int c - 1 / 2))"

definition r_term_at :: "nat \<Rightarrow> int \<Rightarrow> real" where
  "r_term_at n c = rnd (4 / rnd (1 + rnd (r_x_at n c * r_x_at n c)))"

primrec r_sum_at :: "nat \<Rightarrow> (nat \<Rightarrow> int) \<Rightarrow> nat \<Rightarrow> real" where
  "r_sum_at n cf 0 = 0"
| "r_sum_at n cf (Suc k) = rnd (r_sum_at n cf k + r_term_at n (cf k))"

definition r_pi_at :: "nat \<Rightarrow> (nat \<Rightarrow> int) \<Rightarrow> real" where
  "r_pi_at n cf = rnd (r_sum_at n cf n * r_dh n)"

definition e_term_at :: "nat \<Rightarrow> int \<Rightarrow> real" where
  "e_term_at n c = 4 / (1 + ((of_int c - 1 / 2) / real n)\<^sup>2)"

section \<open>Arrays and the heap\<close>

lemma length_fill_range [simp]: "length (fill_range i n g dst) = length dst"
  by (simp add: fill_range_def)

lemma nth_fill_range:
  "k < length dst \<Longrightarrow> fill_range i n g dst ! k = (if i \<le> k \<and> k < n then g k else dst ! k)"
  by (simp add: fill_range_def)

lemma fill_range_empty: "n \<le> i \<Longrightarrow> fill_range i n g dst = dst"
  by (rule nth_equalityI) (auto simp: nth_fill_range)

lemma fill_range_step:
  "i < n \<Longrightarrow> n \<le> length dst \<Longrightarrow> fill_range (Suc i) n g (dst[i := g i]) = fill_range i n g dst"
  by (rule nth_equalityI) (auto simp: nth_fill_range nth_list_update)

lemma deref_Some_iff: "deref h (Some a) = Some blk \<longleftrightarrow> a < length h \<and> h ! a = Some blk"
  by (simp add: deref_def)

lemma load_ok:
  "deref h p = Some blk \<Longrightarrow> i < length blk \<Longrightarrow> load h p i = Inr (blk ! i)"
  by (cases p) (simp_all add: load_def deref_def)

lemma store_ok:
  "deref h (Some a) = Some blk \<Longrightarrow> i < length blk \<Longrightarrow>
   store h (Some a) i v = Inr (h[a := Some (blk[i := v])])"
  by (simp add: store_def)

lemma deref_update_same:
  "a < length h \<Longrightarrow> deref (h[a := v]) (Some a) = v"
  by (simp add: deref_def)

lemma deref_update_other:
  "p \<noteq> Some a \<Longrightarrow> deref (h[a := v]) p = deref h p"
  by (cases p) (auto simp: deref_def)

lemma word32_succ: "(i::32 word) < N \<Longrightarrow> unat (i + 1) = Suc (unat i)"
  by (metis (no_types, lifting) Suc_eq_plus1 add.commute add_cancel_left_right inc_i
        inc_le unat_plus_simple unsigned_0 unsigned_1 word_gt_0)

lemma vec_loop_run:
  assumes "deref h a = Some xs" "deref h b = Some ys" "deref h (Some ci) = Some zs"
    and "a \<noteq> Some ci" "b \<noteq> Some ci"
    and "unat N \<le> length xs" "unat N \<le> length ys" "unat N \<le> length zs"
  shows "vec_loop f N a b (Some ci) i h =
           Inr (h[ci := Some (fill_range (unat i) (unat N) (\<lambda>k. f (xs ! k) (ys ! k)) zs)])"
  using assms
proof (induction "unat N - unat i" arbitrary: i h zs)
  case 0
  then have "\<not> i < N" by (simp add: word_less_nat_alt)
  moreover have "unat N \<le> unat i" using 0 by simp
  moreover have "h[ci := Some zs] = h"
    using 0(4) by (simp add: deref_Some_iff list_update_same_conv)
  ultimately show ?case
    by (simp add: vec_loop.simps fill_range_empty)
next
  case (Suc d)
  let ?g = "\<lambda>k. f (xs ! k) (ys ! k)"
  from Suc(2) have lt: "i < N" by (simp add: word_less_nat_alt)
  then have ui: "unat i < unat N" by (simp add: word_less_nat_alt)
  have su: "unat (i + 1) = Suc (unat i)" using lt by (rule word32_succ)
  let ?h1 = "h[ci := Some (zs[unat i := ?g (unat i)])]"
  have ci: "ci < length h" using Suc(5) by (simp add: deref_Some_iff)
  have l1: "load h a (unat i) = Inr (xs ! unat i)"
    using Suc(3) Suc(8) ui by (intro load_ok) auto
  have l2: "load h b (unat i) = Inr (ys ! unat i)"
    using Suc(4) Suc(9) ui by (intro load_ok) auto
  have st: "store h (Some ci) (unat i) (?g (unat i)) = Inr ?h1"
    using Suc(5) Suc(10) ui by (intro store_ok) auto
  have "vec_loop f N a b (Some ci) (i + 1) ?h1 =
      Inr (?h1[ci := Some (fill_range (unat (i + 1)) (unat N) ?g (zs[unat i := ?g (unat i)]))])"
  proof (rule Suc(1))
    show "d = unat N - unat (i + 1)" using Suc(2) su by simp
    show "deref ?h1 a = Some xs" using Suc(3) Suc(6) by (simp add: deref_update_other)
    show "deref ?h1 b = Some ys" using Suc(4) Suc(7) by (simp add: deref_update_other)
    show "deref ?h1 (Some ci) = Some (zs[unat i := ?g (unat i)])"
      using ci by (simp add: deref_update_same)
    show "a \<noteq> Some ci" "b \<noteq> Some ci" by fact+
    show "unat N \<le> length xs" "unat N \<le> length ys" by fact+
    show "unat N \<le> length (zs[unat i := ?g (unat i)])" using Suc(10) by simp
  qed
  also have "\<dots> = Inr (h[ci := Some (fill_range (unat i) (unat N) ?g zs)])"
    using fill_range_step[of "unat i" "unat N" zs ?g] ui Suc(10) by (simp add: su)
  finally show ?case
    using lt l1 l2 st by (subst vec_loop.simps) simp
qed


lemma heap_update_id: "deref h (Some a) = Some blk \<Longrightarrow> h[a := Some blk] = h"
  by (simp add: deref_Some_iff list_update_same_conv)

lemma getitem_ok:
  "deref h l = Some xs \<Longrightarrow> 0 \<le> i \<Longrightarrow> nat i < length xs \<Longrightarrow>
   PyFloat_AS_DOUBLE (PyList_GetItem h l i) = Inr (xs ! nat i)"
  by (auto simp: PyFloat_AS_DOUBLE_def PyList_GetItem_def)

lemma copy_loop_run:
  assumes "deref h listA = Some xs" "deref h listB = Some ys"
    and "deref h (Some ai) = Some as" "deref h (Some bi) = Some bs"
    and "ai \<noteq> bi" "listA \<noteq> Some ai" "listA \<noteq> Some bi" "listB \<noteq> Some ai" "listB \<noteq> Some bi"
    and "0 \<le> i"
    and "nat n \<le> length xs" "nat n \<le> length ys" "nat n \<le> length as" "nat n \<le> length bs"
  shows "copy_loop listA listB (Some ai) (Some bi) n i h =
           Inr (h[ai := Some (fill_range (nat i) (nat n) (\<lambda>k. xs ! k) as),
                  bi := Some (fill_range (nat i) (nat n) (\<lambda>k. ys ! k) bs)])"
  using assms
proof (induction "nat (n - i)" arbitrary: i h as bs)
  case 0
  then have ge: "\<not> i < n" "nat n \<le> nat i" by simp_all
  have "h[ai := Some as] = h" using 0(4) by (rule heap_update_id)
  moreover have "h[bi := Some bs] = h" using 0(5) by (rule heap_update_id)
  ultimately have "h[ai := Some as, bi := Some bs] = h" by simp
  then show ?case
    using ge by (simp add: copy_loop.simps fill_range_empty)
next
  case (Suc d)
  from Suc(2) have lt: "i < n" by simp
  have i0: "0 \<le> i" by fact
  have ni: "nat i < nat n" using lt i0 by simp
  have su: "nat (i + 1) = Suc (nat i)" using i0 by simp
  have ai: "ai < length h" and bi: "bi < length h"
    using Suc(5,6) by (simp_all add: deref_Some_iff)
  let ?as = "as[nat i := xs ! nat i]" and ?bs = "bs[nat i := ys ! nat i]"
  let ?h1 = "h[ai := Some ?as]"
  let ?h2 = "?h1[bi := Some ?bs]"
  have g1: "PyFloat_AS_DOUBLE (PyList_GetItem h listA i) = Inr (xs ! nat i)"
    using Suc(3) i0 ni Suc(13) by (intro getitem_ok) auto
  have s1: "store h (Some ai) (nat i) (xs ! nat i) = Inr ?h1"
    using Suc(5) ni Suc(15) by (intro store_ok) auto
  have dB: "deref ?h1 listB = Some ys"
    using Suc(4) Suc(10) by (simp add: deref_update_other)
  have g2: "PyFloat_AS_DOUBLE (PyList_GetItem ?h1 listB i) = Inr (ys ! nat i)"
    using dB i0 ni Suc(14) by (intro getitem_ok) auto
  have db: "deref ?h1 (Some bi) = Some bs"
    using Suc(6) Suc(7) by (simp add: deref_update_other)
  have s2: "store ?h1 (Some bi) (nat i) (ys ! nat i) = Inr ?h2"
    using db ni Suc(16) by (intro store_ok) auto
  have "copy_loop listA listB (Some ai) (Some bi) n (i + 1) ?h2 =
      Inr (?h2[ai := Some (fill_range (nat (i + 1)) (nat n) (\<lambda>k. xs ! k) ?as),
               bi := Some (fill_range (nat (i + 1)) (nat n) (\<lambda>k. ys ! k) ?bs)])"
  proof (rule Suc(1))
    show "d = nat (n - (i + 1))" using Suc(2) by simp
    show "deref ?h2 listA = Some xs"
      using Suc(3) Suc(8) Suc(9) by (simp add: deref_update_other)
    show "deref ?h2 listB = Some ys"
      using dB Suc(11) by (simp add: deref_update_other)
    show "deref ?h2 (Some ai) = Some ?as"
      using ai Suc(7) by (simp add: deref_update_other deref_update_same)
    show "deref ?h2 (Some bi) = Some ?bs"
      using bi by (simp add: deref_update_same)
    show "ai \<noteq> bi" "listA \<noteq> Some ai" "listA \<noteq> Some bi" "listB \<noteq> Some ai" "listB \<noteq> Some bi"
      by fact+
    show "0 \<le> i + 1" using i0 by simp
    show "nat n \<le> length xs" "nat n \<le> length ys" by fact+
    show "nat n \<le> length ?as" "nat n \<le> length ?bs" using Suc(15,16) by simp_all
  qed
  also have "\<dots> = Inr (h[ai := Some (fill_range (nat i) (nat n) (\<lambda>k. xs ! k) as),
                        bi := Some (fill_range (nat i) (nat n) (\<lambda>k. ys ! k) bs)])"
    using fill_range_step[of "nat i" "nat n" as "\<lambda>k. xs ! k"]
      fill_range_step[of "nat i" "nat n" bs "\<lambda>k. ys ! k"] ni Suc(15,16) Suc(7)
    by (simp add: su list_update_swap[of ai bi])
  finally show ?case
    using lt g1 s1 g2 s2 by (subst copy_loop.simps) simp
qed

lemma fill_loop_run:
  assumes "deref h c = Some cs" "deref h (Some li) = Some ls" "c \<noteq> Some li"
    and "0 \<le> i" "nat n \<le> length cs" "nat n \<le> length ls"
  shows "fill_loop (Some li) c n i h =
           Inr (h[li := Some (fill_range (nat i) (nat n) (\<lambda>k. cs ! k) ls)])"
  using assms
proof (induction "nat (n - i)" arbitrary: i h ls)
  case 0
  then have ge: "\<not> i < n" "nat n \<le> nat i" by simp_all
  have "h[li := Some ls] = h" using 0(3) by (rule heap_update_id)
  then show ?case
    using ge by (simp add: fill_loop.simps fill_range_empty)
next
  case (Suc d)
  from Suc(2) have lt: "i < n" by simp
  have i0: "0 \<le> i" by fact
  have ni: "nat i < nat n" using lt i0 by simp
  have su: "nat (i + 1) = Suc (nat i)" using i0 by simp
  have li: "li < length h" using Suc(4) by (simp add: deref_Some_iff)
  let ?ls = "ls[nat i := cs ! nat i]"
  let ?h1 = "h[li := Some ?ls]"
  have l1: "load h c (nat i) = Inr (cs ! nat i)"
    using Suc(3) ni Suc(7) by (intro load_ok) auto
  have s1: "PyList_SET_ITEM h (Some li) i (cs ! nat i) = Inr ?h1"
    unfolding PyList_SET_ITEM_def using Suc(4) ni Suc(8) by (intro store_ok) auto
  have "fill_loop (Some li) c n (i + 1) ?h1 =
      Inr (?h1[li := Some (fill_range (nat (i + 1)) (nat n) (\<lambda>k. cs ! k) ?ls)])"
  proof (rule Suc(1))
    show "d = nat (n - (i + 1))" using Suc(2) by simp
    show "deref ?h1 c = Some cs" using Suc(3) Suc(5) by (simp add: deref_update_other)
    show "deref ?h1 (Some li) = Some ?ls" using li by (simp add: deref_update_same)
    show "c \<noteq> Some li" by fact
    show "0 \<le> i + 1" using i0 by simp
    show "nat n \<le> length cs" by fact
    show "nat n \<le> length ?ls" using Suc(8) by simp
  qed
  also have "\<dots> = Inr (h[li := Some (fill_range (nat i) (nat n) (\<lambda>k. cs ! k) ls)])"
    using fill_range_step[of "nat i" "nat n" ls "\<lambda>k. cs ! k"] ni Suc(8)
    by (simp add: su)
  finally show ?case
    using lt l1 s1 by (subst fill_loop.simps) simp
qed


lemma deref_append: "deref h p = Some blk \<Longrightarrow> deref (h @ t) p = Some blk"
  by (cases p) (auto simp: deref_def nth_append split: if_splits)

lemma deref_old: "deref h p = Some blk \<Longrightarrow> \<exists>q. p = Some q \<and> q < length h"
  by (cases p) (auto simp: deref_def split: if_splits)

lemma deref_app:
  "deref (h @ t) (Some q) =
     (if q < length h then h ! q else if q - length h < length t then t ! (q - length h) else None)"
  by (auto simp: deref_def nth_append)

lemma fill_range_zeros:
  "n \<le> length xs \<Longrightarrow> fill_range 0 n (\<lambda>k. xs ! k) (replicate n z) = take n xs"
  by (rule nth_equalityI) (auto simp: nth_fill_range)

lemma fill_range_map2:
  "length xs = n \<Longrightarrow> n \<le> length ys \<Longrightarrow>
   fill_range 0 n (\<lambda>k. f (xs ! k) (ys ! k)) (replicate n z) = map2 f xs ys"
  by (rule nth_equalityI) (auto simp: nth_fill_range)

lemma sint_len32: "n < 2 ^ 31 \<Longrightarrow> sint (word_of_nat n :: 32 word) = int n"
  by (simp add: signed_of_nat signed_take_bit_int_eq_self)

lemma unat_len32: "n < 2 ^ 31 \<Longrightarrow> unat (word_of_nat n :: 32 word) = n"
  by (simp add: unsigned_of_nat take_bit_nat_eq_self)

lemma zip_take_left: "zip xs (take (length xs) ys) = zip xs ys"
proof (induction xs arbitrary: ys)
  case Nil
  show ?case by simp
next
  case (Cons x xs)
  then show ?case by (cases ys) simp_all
qed

lemma pyvec_run:
  assumes A: "deref h listA = Some xs" and B: "deref h listB = Some ys"
    and le: "length xs \<le> length ys" and small: "length xs < 2 ^ 31"
  shows "pyvec (\<lambda>N a b c. vec_loop f N a b c 0) h listA listB =
           Inr (h @ [None, None, None, Some (map2 f xs ys)], Some (length h + 3))"
proof -
  let ?n = "length xs" and ?L = "length h"
  let ?z = "replicate ?n (Fin 0)"
  let ?ys = "take ?n ys"
  obtain la where la: "listA = Some la" "la < ?L" using deref_old[OF A] by blast
  obtain lb where lb: "listB = Some lb" "lb < ?L" using deref_old[OF B] by blast
  have sz: "PyList_Size h listA = Inr (int ?n)" using A by (simp add: PyList_Size_def)
  have as: "sint (word_of_nat ?n :: 32 word) = int ?n" using small by (rule sint_len32)
  have un: "unat (word_of_nat ?n :: 32 word) = ?n" using small by (rule unat_len32)
  let ?h3 = "h @ [Some ?z, Some ?z, Some ?z]"
  have c1: "PyMem_Calloc h (int ?n) = (h @ [Some ?z], Some ?L)"
    by (simp add: PyMem_Calloc_def alloc_def)
  have c2: "PyMem_Calloc (h @ [Some ?z]) (int ?n) = (h @ [Some ?z, Some ?z], Some (?L + 1))"
    by (simp add: PyMem_Calloc_def alloc_def)
  have c3: "PyMem_Calloc (h @ [Some ?z, Some ?z]) (int ?n) = (?h3, Some (?L + 2))"
    by (simp add: PyMem_Calloc_def alloc_def)
  let ?h4 = "h @ [Some xs, Some ?ys, Some ?z]"
  have cp: "copy_loop listA listB (Some ?L) (Some (?L + 1)) (int ?n) 0 ?h3 = Inr ?h4"
  proof -
    have "copy_loop listA listB (Some ?L) (Some (?L + 1)) (int ?n) 0 ?h3 =
        Inr (?h3[?L := Some (fill_range (nat 0) (nat (int ?n)) (\<lambda>k. xs ! k) ?z),
                 ?L + 1 := Some (fill_range (nat 0) (nat (int ?n)) (\<lambda>k. ys ! k) ?z)])"
    proof (rule copy_loop_run)
      show "deref ?h3 listA = Some xs" using A by (rule deref_append)
      show "deref ?h3 listB = Some ys" using B by (rule deref_append)
      show "deref ?h3 (Some ?L) = Some ?z" by (simp add: deref_app)
      show "deref ?h3 (Some (?L + 1)) = Some ?z" by (simp add: deref_app)
      show "?L \<noteq> ?L + 1" by simp
      show "listA \<noteq> Some ?L" "listA \<noteq> Some (?L + 1)" using la by auto
      show "listB \<noteq> Some ?L" "listB \<noteq> Some (?L + 1)" using lb by auto
      show "(0::int) \<le> 0" by simp
      show "nat (int ?n) \<le> length xs" by simp
      show "nat (int ?n) \<le> length ys" using le by simp
      show "nat (int ?n) \<le> length ?z" "nat (int ?n) \<le> length ?z" by simp_all
    qed
    also have "\<dots> = Inr ?h4"
      using le by (simp add: fill_range_zeros list_update_append)
    finally show ?thesis .
  qed
  let ?h5 = "h @ [Some xs, Some ?ys, Some (map2 f xs ys)]"
  have kn: "vec_loop f (word_of_nat ?n) (Some ?L) (Some (?L + 1)) (Some (?L + 2)) 0 ?h4
      = Inr ?h5"
  proof -
    have "vec_loop f (word_of_nat ?n) (Some ?L) (Some (?L + 1)) (Some (?L + 2)) 0 ?h4 =
        Inr (?h4[?L + 2 := Some (fill_range (unat (0::32 word))
              (unat (word_of_nat ?n :: 32 word)) (\<lambda>k. f (xs ! k) (?ys ! k)) ?z)])"
    proof (rule vec_loop_run)
      show "deref ?h4 (Some ?L) = Some xs" by (simp add: deref_app)
      show "deref ?h4 (Some (?L + 1)) = Some ?ys" by (simp add: deref_app)
      show "deref ?h4 (Some (?L + 2)) = Some ?z" by (simp add: deref_app)
      show "Some ?L \<noteq> Some (?L + 2)" "Some (?L + 1) \<noteq> Some (?L + 2)" by simp_all
      show "unat (word_of_nat ?n :: 32 word) \<le> length xs" using un by simp
      show "unat (word_of_nat ?n :: 32 word) \<le> length ?ys" using un le by simp
      show "unat (word_of_nat ?n :: 32 word) \<le> length ?z" using un by simp
    qed
    also have "fill_range (unat (0::32 word)) (unat (word_of_nat ?n :: 32 word))
        (\<lambda>k. f (xs ! k) (?ys ! k)) ?z = map2 f xs ?ys"
      unfolding un using le by (simp add: fill_range_map2)
    also have "map2 f xs ?ys = map2 f xs ys"
      by (simp add: zip_take_left)
    finally show ?thesis by (simp add: list_update_append)
  qed
  let ?h6 = "h @ [Some xs, Some ?ys, Some (map2 f xs ys), Some ?z]"
  have nw: "PyList_New ?h5 (int ?n) = (?h6, Some (?L + 3))"
    by (simp add: PyList_New_def alloc_def)
  let ?h7 = "h @ [Some xs, Some ?ys, Some (map2 f xs ys), Some (map2 f xs ys)]"
  have fl: "fill_loop (Some (?L + 3)) (Some (?L + 2)) (int ?n) 0 ?h6 = Inr ?h7"
  proof -
    have "fill_loop (Some (?L + 3)) (Some (?L + 2)) (int ?n) 0 ?h6 =
        Inr (?h6[?L + 3 := Some (fill_range (nat 0) (nat (int ?n))
               (\<lambda>k. map2 f xs ys ! k) ?z)])"
    proof (rule fill_loop_run)
      show "deref ?h6 (Some (?L + 2)) = Some (map2 f xs ys)" by (simp add: deref_app)
      show "deref ?h6 (Some (?L + 3)) = Some ?z" by (simp add: deref_app)
      show "Some (?L + 2) \<noteq> Some (?L + 3)" by simp
      show "(0::int) \<le> 0" by simp
      show "nat (int ?n) \<le> length (map2 f xs ys)" using le by simp
      show "nat (int ?n) \<le> length ?z" by simp
    qed
    also have "fill_range (nat 0) (nat (int ?n)) (\<lambda>k. map2 f xs ys ! k) ?z = map2 f xs ys"
      using le fill_range_zeros[of ?n "map2 f xs ys" "Fin 0"] by simp
    finally show ?thesis by (simp add: list_update_append)
  qed
  have fr: "PyMem_Free (PyMem_Free (PyMem_Free ?h7 (Some ?L)) (Some (?L + 1))) (Some (?L + 2))
      = h @ [None, None, None, Some (map2 f xs ys)]"
    by (simp add: PyMem_Free_def list_update_append)
  have as': "sint (word_of_int (int ?n) :: 32 word) = int ?n" using as by simp
  have kn': "vec_loop f (word_of_int (int ?n)) (Some ?L) (Some (?L + 1)) (Some (?L + 2)) 0 ?h4
      = Inr ?h5" using kn by simp
  show ?thesis
    by (simp only: pyvec_def sz as' c1 c2 c3 cp kn' nw fl fr Let_def sum.case prod.case)
qed

lemma store_frame:
  assumes "store h p i v = Inr h'"
  shows "length h' = length h"
    and "q \<noteq> p \<Longrightarrow> deref h' q = deref h q"
    and "(deref h' q = None) = (deref h q = None)"
proof -
  from assms obtain a blk where p: "p = Some a" and d: "deref h p = Some blk"
    and h': "h' = h[a := Some (blk[i := v])]"
    by (auto simp: store_def split: option.splits if_splits)
  show "length h' = length h" by (simp add: h')
  show "q \<noteq> p \<Longrightarrow> deref h' q = deref h q" by (simp add: h' p deref_update_other)
  show "(deref h' q = None) = (deref h q = None)"
  proof (cases "q = p")
    case True
    with d p h' show ?thesis by (simp add: deref_Some_iff deref_update_same)
  next
    case False
    then show ?thesis by (simp add: h' p deref_update_other)
  qed
qed

lemma vec_loop_frame:
  "vec_loop f N a b c i h = Inr h' \<Longrightarrow>
   length h' = length h \<and> (\<forall>q. q \<noteq> c \<longrightarrow> deref h' q = deref h q)
     \<and> (\<forall>q. (deref h' q = None) = (deref h q = None))"
proof (induction f N a b c i h rule: vec_loop.induct)
  case (1 f N a b c i h)
  show ?case
  proof (cases "i < N")
    case False
    with "1.prems" show ?thesis by (simp add: vec_loop.simps)
  next
    case True
    with "1.prems" obtain x y h1 where x: "load h a (unat i) = Inr x"
      and y: "load h b (unat i) = Inr y"
      and s: "store h c (unat i) (f x y) = Inr h1"
      and r: "vec_loop f N a b c (i + 1) h1 = Inr h'"
      by (subst (asm) vec_loop.simps) (auto split: sum.splits)
    from "1.IH"[OF True x y s r] store_frame[OF s] show ?thesis by simp
  qed
qed

lemma copy_loop_frame:
  "copy_loop listA listB a b n i h = Inr h' \<Longrightarrow>
   length h' = length h \<and> (\<forall>q. q \<noteq> a \<and> q \<noteq> b \<longrightarrow> deref h' q = deref h q)
     \<and> (\<forall>q. (deref h' q = None) = (deref h q = None))"
proof (induction listA listB a b n i h rule: copy_loop.induct)
  case (1 listA listB a b n i h)
  show ?case
  proof (cases "i < n")
    case False
    with "1.prems" show ?thesis by (simp add: copy_loop.simps)
  next
    case True
    with "1.prems" obtain x h1 y h2 where
      x: "PyFloat_AS_DOUBLE (PyList_GetItem h listA i) = Inr x"
      and s1: "store h a (nat i) x = Inr h1"
      and y: "PyFloat_AS_DOUBLE (PyList_GetItem h1 listB i) = Inr y"
      and s2: "store h1 b (nat i) y = Inr h2"
      and r: "copy_loop listA listB a b n (i + 1) h2 = Inr h'"
      by (subst (asm) copy_loop.simps) (auto split: sum.splits)
    from "1.IH"[OF True x s1 y s2 r] store_frame[OF s1] store_frame[OF s2]
    show ?thesis by simp
  qed
qed

lemma fill_loop_frame:
  "fill_loop listC c n i h = Inr h' \<Longrightarrow>
   length h' = length h \<and> (\<forall>q. q \<noteq> listC \<longrightarrow> deref h' q = deref h q)
     \<and> (\<forall>q. (deref h' q = None) = (deref h q = None))"
proof (induction listC c n i h rule: fill_loop.induct)
  case (1 listC c n i h)
  show ?case
  proof (cases "i < n")
    case False
    with "1.prems" show ?thesis by (simp add: fill_loop.simps)
  next
    case True
    with "1.prems" obtain v h1 where v: "load h c (nat i) = Inr v"
      and s: "PyList_SET_ITEM h listC i v = Inr h1"
      and r: "fill_loop listC c n (i + 1) h1 = Inr h'"
      by (subst (asm) fill_loop.simps) (auto split: sum.splits)
    from s have s': "store h listC (nat i) v = Inr h1" by (simp add: PyList_SET_ITEM_def)
    from "1.IH"[OF True v s r] store_frame[OF s'] show ?thesis by simp
  qed
qed

lemma vec_loop_null: "0 < N \<Longrightarrow> vec_loop f N None b c 0 h = Inl NullDeref"
  by (subst vec_loop.simps) (simp add: load_def)

lemma deref_append_old: "q < length h \<Longrightarrow> deref (h @ t) (Some q) = deref h (Some q)"
  by (simp add: deref_def nth_append)

lemma pyvec_frame:
  assumes run: "pyvec (\<lambda>N a b c. vec_loop f N a b c 0) h listA listB = Inr (h', listC)"
  shows "(\<forall>q<length h. deref h' (Some q) = deref h (Some q))
      \<and> listC = Some (length h + 3) \<and> deref h' listC \<noteq> None"
proof -
  let ?L = "length h"
  from run obtain xs where A: "deref h listA = Some xs"
    by (auto simp: pyvec_def PyList_Size_def split: option.splits)
  let ?w = "word_of_int (int (length xs)) :: 32 word"
  let ?n = "sint ?w"
  let ?z = "replicate (nat ?n) (Fin 0)"
  have sz: "PyList_Size h listA = Inr (int (length xs))" using A by (simp add: PyList_Size_def)
  have wn: "word_of_int ?n = ?w" by simp
  show ?thesis
  proof (cases "?n < 0")
    case True
    then have w0: "0 < ?w" using word_gt_0 by fastforce
    have cl: "\<And>g. PyMem_Calloc g ?n = (g, None)" using True by (simp add: PyMem_Calloc_def)
    have cp: "copy_loop listA listB None None ?n 0 h = Inr h"
      using True by (subst copy_loop.simps) simp
    have "pyvec (\<lambda>N a b c. vec_loop f N a b c 0) h listA listB = Inl NullDeref"
      by (simp only: pyvec_def sz cl cp wn vec_loop_null[OF w0] Let_def sum.case prod.case)
    with run show ?thesis by simp
  next
    case False
    let ?h3 = "h @ [Some ?z, Some ?z, Some ?z]"
    have c1: "PyMem_Calloc h ?n = (h @ [Some ?z], Some ?L)"
      using False by (simp add: PyMem_Calloc_def alloc_def)
    have c2: "PyMem_Calloc (h @ [Some ?z]) ?n = (h @ [Some ?z, Some ?z], Some (?L + 1))"
      using False by (simp add: PyMem_Calloc_def alloc_def)
    have c3: "PyMem_Calloc (h @ [Some ?z, Some ?z]) ?n = (?h3, Some (?L + 2))"
      using False by (simp add: PyMem_Calloc_def alloc_def)
    have nw: "\<And>g. PyList_New g ?n = (g @ [Some ?z], Some (length g))"
      using False by (simp add: PyList_New_def alloc_def)
    from run obtain h4 h5 h7 where
      cp: "copy_loop listA listB (Some ?L) (Some (?L + 1)) ?n 0 ?h3 = Inr h4"
      and kn: "vec_loop f ?w (Some ?L) (Some (?L + 1)) (Some (?L + 2)) 0 h4 = Inr h5"
      and fl: "fill_loop (Some (length h5)) (Some (?L + 2)) ?n 0 (h5 @ [Some ?z]) = Inr h7"
      and lc: "listC = Some (length h5)"
      and h': "h' = PyMem_Free (PyMem_Free (PyMem_Free h7 (Some ?L)) (Some (?L + 1))) (Some (?L + 2))"
      by (simp only: pyvec_def sz c1 c2 c3 nw wn Let_def sum.case prod.case)
         (auto split: sum.splits)
    note f4 = copy_loop_frame[OF cp]
    note f5 = vec_loop_frame[OF kn]
    note f7 = fill_loop_frame[OF fl]
    have l5: "length h5 = ?L + 3" using f4 f5 by simp
    have l7: "length h7 = ?L + 4" using f7 l5 by simp
    have lc': "listC = Some (?L + 3)" using lc l5 by simp
    have old: "deref h' (Some q) = deref h (Some q)" if q: "q < ?L" for q
    proof -
      have "deref h' (Some q) = deref h7 (Some q)"
        using q by (simp add: h' PyMem_Free_def deref_update_other)
      also have "\<dots> = deref (h5 @ [Some ?z]) (Some q)" using f7 q l5 by simp
      also have "\<dots> = deref h5 (Some q)" using q l5 by (intro deref_append_old) simp
      also have "\<dots> = deref h4 (Some q)" using f5 q by simp
      also have "\<dots> = deref ?h3 (Some q)" using f4 q by simp
      also have "\<dots> = deref h (Some q)" using q by (rule deref_append_old)
      finally show ?thesis .
    qed
    have "deref (h5 @ [Some ?z]) (Some (length h5)) \<noteq> None" by (simp add: deref_app)
    then have "deref h7 (Some (length h5)) \<noteq> None" using f7 by simp
    then have "deref h' listC \<noteq> None"
      using l5 by (simp add: h' lc PyMem_Free_def deref_update_other)
    with old lc' show ?thesis by simp
  qed
qed

lemma transform_run:
  "length xs \<le> length ys \<Longrightarrow> transform xs ys c f = Inr (c @ map2 f xs ys)"
  by (induction xs ys c f rule: transform.induct) simp_all

lemma transform_short:
  "length ys < length xs \<Longrightarrow> transform xs ys c f = Inl OutOfBounds"
  by (induction xs ys c f rule: transform.induct) simp_all

section \<open>Elementwise kernels\<close>

lemmas ieee_eval = dadd_def dsub_def dmul_def ddiv_def mk_def rnd_def ulp_def ilog2_def rhe_def
  is_zero_def inf_of_def zero_of_def Let_def compute_bitlen

lemma elementwise_map2:
  "length xs \<le> length ys \<Longrightarrow> elementwise f xs ys (map2 f xs ys)"
  by (simp add: elementwise_def)

lemma kernel_run:
  assumes "arrays_at h N a b ci xs ys"
  shows "vec_loop f N a b (Some ci) 0 h = Inr (h[ci := Some (map2 f xs ys)])"
proof -
  from assms obtain zs where c: "deref h (Some ci) = Some zs" and lz: "length zs = unat N"
    by (auto simp: arrays_at_def split: option.splits)
  from assms have ab: "deref h a = Some xs" "deref h b = Some ys" "a \<noteq> Some ci" "b \<noteq> Some ci"
    and l: "length xs = unat N" "length ys = unat N"
    by (simp_all add: arrays_at_def)
  have "vec_loop f N a b (Some ci) 0 h =
      Inr (h[ci := Some (fill_range (unat (0::32 word)) (unat N) (\<lambda>k. f (xs ! k) (ys ! k)) zs)])"
    using ab(1,2) c ab(3,4) by (rule vec_loop_run) (simp_all add: l lz)
  also have "fill_range (unat (0::32 word)) (unat N) (\<lambda>k. f (xs ! k) (ys ! k)) zs = map2 f xs ys"
    by (rule nth_equalityI) (simp_all add: l lz nth_fill_range)
  finally show ?thesis .
qed

text \<open>
  Claim C1. For equal-length sequences of doubles \<open>a\<close> and \<open>b\<close>, \<open>vecadd\<close> returns the
  sequence \<open>c\<close> of the same length with \<open>c[i] = a[i] + b[i]\<close> at every index, and
  \<open>vecmul\<close> the one with \<open>c[i] = a[i] * b[i]\<close>, in order. The C kernels leave it in the
  array \<open>c\<close>; the C++ kernels return it.
\<close>

theorem vecadd_vecmul_elementwise:
  "(arrays_at h N a b ci xs ys \<longrightarrow>
      vecadd N a b (Some ci) h = Inr (h[ci := Some (map2 dadd xs ys)]) \<and>
      vecmul N a b (Some ci) h = Inr (h[ci := Some (map2 dmul xs ys)]))
   \<and> (length xs = length ys \<longrightarrow>
      vecadd_cc xs ys = Inr (map2 dadd xs ys) \<and> vecmul_cc xs ys = Inr (map2 dmul xs ys)
      \<and> elementwise dadd xs ys (map2 dadd xs ys) \<and> elementwise dmul xs ys (map2 dmul xs ys))"
  by (simp add: vecadd_def vecmul_def vecadd_cc_def vecmul_cc_def kernel_run transform_run
      elementwise_map2)

text \<open>The sequences \<open>[1, 2, 3]\<close> and \<open>[10, 20, 30]\<close>.\<close>

theorem vecadd_vecmul_elementwise_witness:
  "arrays_at [Some [Fin 1, Fin 2, Fin 3], Some [Fin 10, Fin 20, Fin 30], Some [Fin 0, Fin 0, Fin 0]]
      3 (Some 0) (Some 1) 2 [Fin 1, Fin 2, Fin 3] [Fin 10, Fin 20, Fin 30]
   \<and> vecadd 3 (Some 0) (Some 1) (Some 2)
        [Some [Fin 1, Fin 2, Fin 3], Some [Fin 10, Fin 20, Fin 30], Some [Fin 0, Fin 0, Fin 0]]
      = Inr [Some [Fin 1, Fin 2, Fin 3], Some [Fin 10, Fin 20, Fin 30], Some [Fin 11, Fin 22, Fin 33]]
   \<and> vecmul 3 (Some 0) (Some 1) (Some 2)
        [Some [Fin 1, Fin 2, Fin 3], Some [Fin 10, Fin 20, Fin 30], Some [Fin 0, Fin 0, Fin 0]]
      = Inr [Some [Fin 1, Fin 2, Fin 3], Some [Fin 10, Fin 20, Fin 30], Some [Fin 10, Fin 40, Fin 90]]
   \<and> vecadd_cc [Fin 1, Fin 2, Fin 3] [Fin 10, Fin 20, Fin 30] = Inr [Fin 11, Fin 22, Fin 33]
   \<and> vecmul_cc [Fin 1, Fin 2, Fin 3] [Fin 10, Fin 20, Fin 30] = Inr [Fin 10, Fin 40, Fin 90]"
proof -
  have pre: "arrays_at [Some [Fin 1, Fin 2, Fin 3], Some [Fin 10, Fin 20, Fin 30],
      Some [Fin 0, Fin 0, Fin 0]] 3 (Some 0) (Some 1) 2 [Fin 1, Fin 2, Fin 3] [Fin 10, Fin 20, Fin 30]"
    by (simp add: arrays_at_def deref_def)
  have ev: "map2 dadd [Fin 1, Fin 2, Fin 3] [Fin 10, Fin 20, Fin 30] = [Fin 11, Fin 22, Fin 33]"
    "map2 dmul [Fin 1, Fin 2, Fin 3] [Fin 10, Fin 20, Fin 30] = [Fin 10, Fin 40, Fin 90]"
    by (simp_all add: ieee_eval)
  show ?thesis
    using pre ev
      vecadd_vecmul_elementwise[of
        "[Some [Fin 1, Fin 2, Fin 3], Some [Fin 10, Fin 20, Fin 30], Some [Fin 0, Fin 0, Fin 0]]"
        3 "Some 0" "Some 1" 2 "[Fin 1, Fin 2, Fin 3]" "[Fin 10, Fin 20, Fin 30]"]
    by simp
qed

text \<open>
  Claim C5. For equal-length sequences \<open>a\<close> and \<open>b\<close> with no zero element in \<open>b\<close>,
  \<open>vecdiv\<close> returns the sequence \<open>c\<close> of the same length with \<open>c[i] = a[i] / b[i]\<close> at
  every index.
\<close>

theorem vecdiv_elementwise:
  "(arrays_at h N a b ci xs ys \<and> (\<forall>y\<in>set ys. \<not> is_zero y) \<longrightarrow>
      vecdiv N a b (Some ci) h = Inr (h[ci := Some (map2 ddiv xs ys)]))
   \<and> (length xs = length ys \<and> (\<forall>y\<in>set ys. \<not> is_zero y) \<longrightarrow>
      vecdiv_cc xs ys = Inr (map2 ddiv xs ys) \<and> elementwise ddiv xs ys (map2 ddiv xs ys))"
  by (simp add: vecdiv_def vecdiv_cc_def kernel_run transform_run elementwise_map2)

text \<open>The sequences \<open>[10, 20]\<close> and \<open>[2, 5]\<close>.\<close>

theorem vecdiv_elementwise_witness:
  "arrays_at [Some [Fin 10, Fin 20], Some [Fin 2, Fin 5], Some [Fin 0, Fin 0]]
      2 (Some 0) (Some 1) 2 [Fin 10, Fin 20] [Fin 2, Fin 5]
   \<and> \<not> is_zero (Fin 2) \<and> \<not> is_zero (Fin 5)
   \<and> vecdiv 2 (Some 0) (Some 1) (Some 2) [Some [Fin 10, Fin 20], Some [Fin 2, Fin 5], Some [Fin 0, Fin 0]]
      = Inr [Some [Fin 10, Fin 20], Some [Fin 2, Fin 5], Some [Fin 5, Fin 4]]
   \<and> vecdiv_cc [Fin 10, Fin 20] [Fin 2, Fin 5] = Inr [Fin 5, Fin 4]"
proof -
  have pre: "arrays_at [Some [Fin 10, Fin 20], Some [Fin 2, Fin 5], Some [Fin 0, Fin 0]]
      2 (Some 0) (Some 1) 2 [Fin 10, Fin 20] [Fin 2, Fin 5]"
    by (simp add: arrays_at_def deref_def)
  have nz: "\<forall>y\<in>set [Fin 2, Fin 5]. \<not> is_zero y" by (simp add: is_zero_def)
  have ev: "map2 ddiv [Fin 10, Fin 20] [Fin 2, Fin 5] = [Fin 5, Fin 4]"
    by (simp add: ieee_eval)
  show ?thesis
    using pre nz ev
      vecdiv_elementwise[of "[Some [Fin 10, Fin 20], Some [Fin 2, Fin 5], Some [Fin 0, Fin 0]]"
        2 "Some 0" "Some 1" 2 "[Fin 10, Fin 20]" "[Fin 2, Fin 5]"]
    by simp
qed

lemma arrays_at_bound: "arrays_at h N a b ci xs ys \<Longrightarrow> ci < length h"
  by (auto simp: arrays_at_def deref_def split: option.splits if_splits)

lemma arrays_at_lengths: "arrays_at h N a b ci xs ys \<Longrightarrow> length xs = length ys"
  by (simp add: arrays_at_def)

text \<open>
  Claim C10. For equal-length sequences \<open>a\<close> and \<open>b\<close>, the C kernel and the C++ kernel of
  each operation produce the same output sequence: what the C kernel leaves in the array
  \<open>c\<close> is what the C++ kernel returns.
\<close>

theorem c_and_cc_kernels_agree:
  assumes "arrays_at h N a b ci xs ys"
  shows "out_of (vecadd N a b (Some ci) h) ci = vecadd_cc xs ys
       \<and> out_of (vecmul N a b (Some ci) h) ci = vecmul_cc xs ys
       \<and> out_of (vecdiv N a b (Some ci) h) ci = vecdiv_cc xs ys
       \<and> vecadd_cc xs ys = Inr (map2 dadd xs ys)
       \<and> vecmul_cc xs ys = Inr (map2 dmul xs ys)
       \<and> vecdiv_cc xs ys = Inr (map2 ddiv xs ys)"
  using arrays_at_bound[OF assms] arrays_at_lengths[OF assms]
  by (simp add: vecadd_def vecmul_def vecdiv_def vecadd_cc_def vecmul_cc_def vecdiv_cc_def
      kernel_run[OF assms] transform_run deref_update_same)

text \<open>The sequences \<open>[3, 1]\<close> and \<open>[4, 0]\<close>; the quotient \<open>1 / 0\<close> is the positive infinity in both.\<close>

theorem c_and_cc_kernels_agree_witness:
  "arrays_at [Some [Fin 3, Fin 1], Some [Fin 4, Fin 0], Some [Fin 0, Fin 0]]
      2 (Some 0) (Some 1) 2 [Fin 3, Fin 1] [Fin 4, Fin 0]
   \<and> out_of (vecadd 2 (Some 0) (Some 1) (Some 2)
        [Some [Fin 3, Fin 1], Some [Fin 4, Fin 0], Some [Fin 0, Fin 0]]) 2 = Inr [Fin 7, Fin 1]
   \<and> vecadd_cc [Fin 3, Fin 1] [Fin 4, Fin 0] = Inr [Fin 7, Fin 1]
   \<and> out_of (vecmul 2 (Some 0) (Some 1) (Some 2)
        [Some [Fin 3, Fin 1], Some [Fin 4, Fin 0], Some [Fin 0, Fin 0]]) 2 = Inr [Fin 12, Fin 0]
   \<and> vecmul_cc [Fin 3, Fin 1] [Fin 4, Fin 0] = Inr [Fin 12, Fin 0]
   \<and> out_of (vecdiv 2 (Some 0) (Some 1) (Some 2)
        [Some [Fin 3, Fin 1], Some [Fin 4, Fin 0], Some [Fin 0, Fin 0]]) 2 = Inr [Fin (3 / 4), PInf]
   \<and> vecdiv_cc [Fin 3, Fin 1] [Fin 4, Fin 0] = Inr [Fin (3 / 4), PInf]"
proof -
  have pre: "arrays_at [Some [Fin 3, Fin 1], Some [Fin 4, Fin 0], Some [Fin 0, Fin 0]]
      2 (Some 0) (Some 1) 2 [Fin 3, Fin 1] [Fin 4, Fin 0]"
    by (simp add: arrays_at_def deref_def)
  have ev: "map2 dadd [Fin 3, Fin 1] [Fin 4, Fin 0] = [Fin 7, Fin 1]"
    "map2 dmul [Fin 3, Fin 1] [Fin 4, Fin 0] = [Fin 12, Fin 0]"
    "map2 ddiv [Fin 3, Fin 1] [Fin 4, Fin 0] = [Fin (3 / 4), PInf]"
    by (simp_all add: ieee_eval)
  show ?thesis
    using pre ev c_and_cc_kernels_agree[OF pre] by simp
qed


section \<open>Sequences of different lengths\<close>

lemma kernels_as_loops:
  "vecadd = (\<lambda>N a b c. vec_loop dadd N a b c 0)"
  "vecmul = (\<lambda>N a b c. vec_loop dmul N a b c 0)"
  "vecdiv = (\<lambda>N a b c. vec_loop ddiv N a b c 0)"
  by (intro ext, simp add: vecadd_def vecmul_def vecdiv_def)+

lemma wrappers_run:
  assumes "deref h listA = Some xs" "deref h listB = Some ys"
    and "length xs \<le> length ys" "length xs < 2 ^ 31"
  shows "pyvecadd h listA listB =
           Inr (h @ [None, None, None, Some (map2 dadd xs ys)], Some (length h + 3))"
    and "pyvecmul h listA listB =
           Inr (h @ [None, None, None, Some (map2 dmul xs ys)], Some (length h + 3))"
    and "pyvecdiv h listA listB =
           Inr (h @ [None, None, None, Some (map2 ddiv xs ys)], Some (length h + 3))"
  unfolding pyvecadd_def pyvecmul_def pyvecdiv_def kernels_as_loops
  by (rule pyvec_run[OF assms])+

text \<open>
  With \<open>b\<close> the shorter sequence, as in \<open>vector_add([1,2],[1])\<close>, no output is produced
  either way, and no length is compared: the wrapper takes the \<^verbatim>\<open>NULL\<close> that
  \<^verbatim>\<open>PyList_GetItem\<close> returns for the missing item into \<^verbatim>\<open>PyFloat_AS_DOUBLE\<close>, and
  \<^verbatim>\<open>std::transform\<close> reads past the end of \<open>b\<close>.
\<close>

lemma shorter_b_example:
  "pyvecadd [Some [Fin 1, Fin 2], Some [Fin 1]] (Some 0) (Some 1) = Inl NullDeref
   \<and> vecadd_cc [Fin 1, Fin 2] [Fin 1] = Inl OutOfBounds"
proof -
  have "copy_loop (Some 0) (Some 1) (Some 2) (Some 3) 2 0
      [Some [Fin 1, Fin 2], Some [Fin 1], Some [Fin 0, Fin 0], Some [Fin 0, Fin 0],
       Some [Fin 0, Fin 0]] = Inl NullDeref"
    by (simp add: copy_loop.simps PyList_GetItem_def PyFloat_AS_DOUBLE_def store_def deref_def)
  then show ?thesis
    by (simp add: pyvecadd_def pyvec_def PyList_Size_def PyMem_Calloc_def alloc_def deref_def
        vecadd_cc_def Let_def eval_nat_numeral)
qed

text \<open>
  Claim C2 says that for sequences of different lengths each operation fails with a
  \<open>LengthMismatch\<close> error and produces no output sequence. The code has no such check: the
  wrappers take the length of \<open>listA\<close> alone and \<open>std::transform\<close> stops at the end of
  \<open>a\<close>. For \<open>a = [1]\<close> and \<open>b = [1, 2]\<close> the wrapper and the C++ kernel return \<open>[2]\<close>.
\<close>

theorem length_mismatch_counterexample:
  "pyvecadd [Some [Fin 1], Some [Fin 1, Fin 2]] (Some 0) (Some 1)
     = Inr ([Some [Fin 1], Some [Fin 1, Fin 2], None, None, None, Some [Fin 2]], Some 5)
   \<and> vecadd_cc [Fin 1] [Fin 1, Fin 2] = Inr [Fin 2]"
proof -
  have ev: "dadd (Fin 1) (Fin 1) = Fin 2" by (simp add: ieee_eval)
  have "pyvecadd [Some [Fin 1], Some [Fin 1, Fin 2]] (Some 0) (Some 1)
      = Inr ([Some [Fin 1], Some [Fin 1, Fin 2]]
               @ [None, None, None, Some (map2 dadd [Fin 1] [Fin 1, Fin 2])],
             Some (length [Some [Fin 1], Some [Fin 1, Fin 2]] + 3))"
    by (rule wrappers_run) (simp_all add: deref_def)
  then show ?thesis by (simp add: ev vecadd_cc_def)
qed

text \<open>
  Claim C2, amended. When \<open>b\<close> is longer than \<open>a\<close> (and \<open>a\<close> has fewer than \<open>2 ^ 31\<close>
  elements, for the wrappers), each of the three operations returns, without failing, the
  sequence of the length of \<open>a\<close> with \<open>c[i] = a[i] OP b[i]\<close>: the further elements of \<open>b\<close>
  are ignored. The wrapper's result is a new list, after the three freed buffers.
\<close>

theorem longer_b_is_truncated:
  "(deref h listA = Some xs \<and> deref h listB = Some ys \<and> length xs < length ys
      \<and> length xs < 2 ^ 31 \<longrightarrow>
      pyvecadd h listA listB
        = Inr (h @ [None, None, None, Some (map2 dadd xs ys)], Some (length h + 3))
      \<and> pyvecmul h listA listB
        = Inr (h @ [None, None, None, Some (map2 dmul xs ys)], Some (length h + 3))
      \<and> pyvecdiv h listA listB
        = Inr (h @ [None, None, None, Some (map2 ddiv xs ys)], Some (length h + 3)))
   \<and> (length xs < length ys \<longrightarrow>
      vecadd_cc xs ys = Inr (map2 dadd xs ys) \<and> vecmul_cc xs ys = Inr (map2 dmul xs ys)
      \<and> vecdiv_cc xs ys = Inr (map2 ddiv xs ys)
      \<and> elementwise dadd xs ys (map2 dadd xs ys) \<and> elementwise dmul xs ys (map2 dmul xs ys)
      \<and> elementwise ddiv xs ys (map2 ddiv xs ys))"
  by (simp add: wrappers_run vecadd_cc_def vecmul_cc_def vecdiv_cc_def transform_run
      elementwise_map2)

text \<open>The sequences \<open>[2, 3]\<close> and \<open>[4, 6, 7]\<close>.\<close>

theorem longer_b_is_truncated_witness:
  "deref [Some [Fin 2, Fin 3], Some [Fin 4, Fin 6, Fin 7]] (Some 0) = Some [Fin 2, Fin 3]
   \<and> deref [Some [Fin 2, Fin 3], Some [Fin 4, Fin 6, Fin 7]] (Some 1) = Some [Fin 4, Fin 6, Fin 7]
   \<and> length [Fin 2, Fin 3] < length [Fin 4, Fin 6, Fin 7]
   \<and> length [Fin 2, Fin 3] < (2::nat) ^ 31
   \<and> pyvecadd [Some [Fin 2, Fin 3], Some [Fin 4, Fin 6, Fin 7]] (Some 0) (Some 1)
       = Inr ([Some [Fin 2, Fin 3], Some [Fin 4, Fin 6, Fin 7], None, None, None,
               Some [Fin 6, Fin 9]], Some 5)
   \<and> pyvecmul [Some [Fin 2, Fin 3], Some [Fin 4, Fin 6, Fin 7]] (Some 0) (Some 1)
       = Inr ([Some [Fin 2, Fin 3], Some [Fin 4, Fin 6, Fin 7], None, None, None,
               Some [Fin 8, Fin 18]], Some 5)
   \<and> pyvecdiv [Some [Fin 2, Fin 3], Some [Fin 4, Fin 6, Fin 7]] (Some 0) (Some 1)
       = Inr ([Some [Fin 2, Fin 3], Some [Fin 4, Fin 6, Fin 7], None, None, None,
               Some [Fin (1 / 2), Fin (1 / 2)]], Some 5)
   \<and> vecadd_cc [Fin 2, Fin 3] [Fin 4, Fin 6, Fin 7] = Inr [Fin 6, Fin 9]
   \<and> vecmul_cc [Fin 2, Fin 3] [Fin 4, Fin 6, Fin 7] = Inr [Fin 8, Fin 18]
   \<and> vecdiv_cc [Fin 2, Fin 3] [Fin 4, Fin 6, Fin 7] = Inr [Fin (1 / 2), Fin (1 / 2)]"
proof -
  have pre: "deref [Some [Fin 2, Fin 3], Some [Fin 4, Fin 6, Fin 7]] (Some 0) = Some [Fin 2, Fin 3]"
    "deref [Some [Fin 2, Fin 3], Some [Fin 4, Fin 6, Fin 7]] (Some 1) = Some [Fin 4, Fin 6, Fin 7]"
    "length [Fin 2, Fin 3] < length [Fin 4, Fin 6, Fin 7]"
    "length [Fin 2, Fin 3] < (2::nat) ^ 31"
    by (simp_all add: deref_def)
  have ev: "map2 dadd [Fin 2, Fin 3] [Fin 4, Fin 6, Fin 7] = [Fin 6, Fin 9]"
    "map2 dmul [Fin 2, Fin 3] [Fin 4, Fin 6, Fin 7] = [Fin 8, Fin 18]"
    "map2 ddiv [Fin 2, Fin 3] [Fin 4, Fin 6, Fin 7] = [Fin (1 / 2), Fin (1 / 2)]"
    by (simp_all add: ieee_eval)
  show ?thesis
    using pre ev
      longer_b_is_truncated[of "[Some [Fin 2, Fin 3], Some [Fin 4, Fin 6, Fin 7]]"
        "Some 0" "[Fin 2, Fin 3]" "Some 1" "[Fin 4, Fin 6, Fin 7]"]
    by simp
qed


section \<open>Division by a zero element\<close>

lemma ddiv_by_zero:
  "is_zero y \<Longrightarrow>
   ddiv x y = (if x = NaN \<or> is_zero x then NaN else inf_of (sign x \<noteq> sign y))"
  by (cases x; cases y) (auto simp: ddiv_def is_zero_def)

text \<open>
  Claim C6 says that \<open>vecdiv\<close> fails with a \<open>DivisionByZero\<close> error when some \<open>b[i]\<close> is
  zero. The kernels divide without looking at the divisor: for \<open>a = [1]\<close> and \<open>b = [0]\<close>
  both return the sequence holding the positive infinity.
\<close>

theorem zero_divisor_counterexample:
  "vecdiv 1 (Some 0) (Some 1) (Some 2) [Some [Fin 1], Some [Fin 0], Some [Fin 0]]
     = Inr [Some [Fin 1], Some [Fin 0], Some [PInf]]
   \<and> vecdiv_cc [Fin 1] [Fin 0] = Inr [PInf]"
proof -
  have pre: "arrays_at [Some [Fin 1], Some [Fin 0], Some [Fin 0]] 1 (Some 0) (Some 1) 2
      [Fin 1] [Fin 0]"
    by (simp add: arrays_at_def deref_def)
  have ev: "ddiv (Fin 1) (Fin 0) = PInf"
    by (simp add: ddiv_def is_zero_def inf_of_def)
  show ?thesis
    using kernel_run[OF pre, of ddiv] by (simp add: vecdiv_def vecdiv_cc_def ev)
qed

text \<open>
  Claim C6, amended. For equal-length sequences \<open>vecdiv\<close> does not fail on a zero divisor:
  it returns \<open>c\<close> with \<open>c[i] = a[i] / b[i]\<close> in IEEE 754 arithmetic, and where \<open>b[i]\<close> is
  zero, \<open>c[i]\<close> is NaN when \<open>a[i]\<close> is zero or NaN, and otherwise the infinity whose sign is
  negative exactly when the signs of \<open>a[i]\<close> and \<open>b[i]\<close> differ.
\<close>

theorem zero_divisor_gives_inf_or_nan:
  "(arrays_at h N a b ci xs ys \<longrightarrow>
      vecdiv N a b (Some ci) h = Inr (h[ci := Some (map2 ddiv xs ys)]))
   \<and> (length xs = length ys \<longrightarrow>
      vecdiv_cc xs ys = Inr (map2 ddiv xs ys)
      \<and> (\<forall>i<length xs. is_zero (ys ! i) \<longrightarrow>
            map2 ddiv xs ys ! i =
              (if xs ! i = NaN \<or> is_zero (xs ! i) then NaN
               else inf_of (sign (xs ! i) \<noteq> sign (ys ! i)))))"
  by (simp add: vecdiv_def vecdiv_cc_def kernel_run transform_run ddiv_by_zero)

text \<open>The sequences \<open>[-3, 0]\<close> and \<open>[0, -0]\<close>.\<close>

theorem zero_divisor_gives_inf_or_nan_witness:
  "arrays_at [Some [Fin (- 3), Fin 0], Some [Fin 0, NZero], Some [Fin 0, Fin 0]]
      2 (Some 0) (Some 1) 2 [Fin (- 3), Fin 0] [Fin 0, NZero]
   \<and> length [Fin (- 3), Fin 0] = length [Fin 0, NZero]
   \<and> is_zero ([Fin 0, NZero] ! 0) \<and> is_zero ([Fin 0, NZero] ! 1)
   \<and> vecdiv 2 (Some 0) (Some 1) (Some 2)
        [Some [Fin (- 3), Fin 0], Some [Fin 0, NZero], Some [Fin 0, Fin 0]]
      = Inr [Some [Fin (- 3), Fin 0], Some [Fin 0, NZero], Some [NInf, NaN]]
   \<and> vecdiv_cc [Fin (- 3), Fin 0] [Fin 0, NZero] = Inr [NInf, NaN]
   \<and> map2 ddiv [Fin (- 3), Fin 0] [Fin 0, NZero] ! 0 = NInf
   \<and> map2 ddiv [Fin (- 3), Fin 0] [Fin 0, NZero] ! 1 = NaN"
proof -
  have pre: "arrays_at [Some [Fin (- 3), Fin 0], Some [Fin 0, NZero], Some [Fin 0, Fin 0]]
      2 (Some 0) (Some 1) 2 [Fin (- 3), Fin 0] [Fin 0, NZero]"
    by (simp add: arrays_at_def deref_def)
  have z: "is_zero ([Fin 0, NZero] ! 0)" "is_zero ([Fin 0, NZero] ! 1)"
    by (simp_all add: is_zero_def)
  have ev: "map2 ddiv [Fin (- 3), Fin 0] [Fin 0, NZero] = [NInf, NaN]"
    by (simp add: ddiv_def is_zero_def inf_of_def)
  show ?thesis
    using pre z ev
      zero_divisor_gives_inf_or_nan[of
        "[Some [Fin (- 3), Fin 0], Some [Fin 0, NZero], Some [Fin 0, Fin 0]]"
        2 "Some 0" "Some 1" 2 "[Fin (- 3), Fin 0]" "[Fin 0, NZero]"]
    by simp
qed

section \<open>The inputs are not written\<close>

text \<open>
  Claim C8. After a call of any kernel the input sequences are unchanged, and the output
  is a newly allocated sequence. For the wrappers: every block the heap held before the
  call, \<open>listA\<close> and \<open>listB\<close> among them, is as it was, and the result \<open>listC\<close> is a block
  at an address beyond the old heap. For the C kernels: only the array \<open>c\<close> is written, so
  \<open>a\<close> and \<open>b\<close> are unchanged when \<open>c\<close> is neither, as \<^verbatim>\<open>__restrict__\<close> demands. The
  C++ kernels take \<^verbatim>\<open>const dvec&\<close> and return a local vector: their model is a function
  of the two values.
\<close>

theorem inputs_unchanged:
  "(f \<in> {pyvecadd, pyvecmul, pyvecdiv} \<and> f h listA listB = Inr (h1, listC) \<longrightarrow>
      (\<forall>q<length h. deref h1 (Some q) = deref h (Some q))
      \<and> deref h1 listA = deref h listA
      \<and> listC = Some (length h + 3) \<and> deref h1 listC \<noteq> None)
   \<and> (k \<in> {vecadd, vecmul, vecdiv} \<and> k N a b c h = Inr h2 \<longrightarrow>
      (\<forall>q. q \<noteq> c \<longrightarrow> deref h2 q = deref h q))"
proof (intro conjI impI)
  assume run: "f \<in> {pyvecadd, pyvecmul, pyvecdiv} \<and> f h listA listB = Inr (h1, listC)"
  then obtain g where g: "pyvec (\<lambda>N a b c. vec_loop g N a b c 0) h listA listB = Inr (h1, listC)"
    by (auto simp: pyvecadd_def pyvecmul_def pyvecdiv_def kernels_as_loops)
  note fr = pyvec_frame[OF g]
  show "\<forall>q<length h. deref h1 (Some q) = deref h (Some q)" by (rule fr[THEN conjunct1])
  show "listC = Some (length h + 3)" by (rule fr[THEN conjunct2, THEN conjunct1])
  show "deref h1 listC \<noteq> None" by (rule fr[THEN conjunct2, THEN conjunct2])
  from g obtain xs where "deref h listA = Some xs"
    by (auto simp: pyvec_def PyList_Size_def split: option.splits)
  then obtain la where "listA = Some la" "la < length h" using deref_old by blast
  with fr show "deref h1 listA = deref h listA" by simp
next
  assume run: "k \<in> {vecadd, vecmul, vecdiv} \<and> k N a b c h = Inr h2"
  then obtain g where "vec_loop g N a b c 0 h = Inr h2"
    by (auto simp: vecadd_def vecmul_def vecdiv_def)
  from vec_loop_frame[OF this] show "\<forall>q. q \<noteq> c \<longrightarrow> deref h2 q = deref h q" by simp
qed

text \<open>The product of the list \<open>[2, 3]\<close> with itself: both arguments are the same object.\<close>

theorem inputs_unchanged_witness:
  "pyvecmul \<in> {pyvecadd, pyvecmul, pyvecdiv}
   \<and> pyvecmul [Some [Fin 2, Fin 3]] (Some 0) (Some 0)
       = Inr ([Some [Fin 2, Fin 3], None, None, None, Some [Fin 4, Fin 9]], Some 4)
   \<and> vecmul \<in> {vecadd, vecmul, vecdiv}
   \<and> vecmul 2 (Some 0) (Some 0) (Some 1) [Some [Fin 2, Fin 3], Some [Fin 0, Fin 0]]
       = Inr [Some [Fin 2, Fin 3], Some [Fin 4, Fin 9]]
   \<and> deref [Some [Fin 2, Fin 3], None, None, None, Some [Fin 4, Fin 9]] (Some 0)
       = deref [Some [Fin 2, Fin 3]] (Some 0)
   \<and> deref [Some [Fin 2, Fin 3], None, None, None, Some [Fin 4, Fin 9]] (Some 4) \<noteq> None
   \<and> deref [Some [Fin 2, Fin 3], Some [Fin 4, Fin 9]] (Some 0)
       = deref [Some [Fin 2, Fin 3], Some [Fin 0, Fin 0]] (Some 0)"
proof -
  have ev: "dmul (Fin 2) (Fin 2) = Fin 4" "dmul (Fin 3) (Fin 3) = Fin 9"
    by (simp_all add: ieee_eval)
  have w: "pyvecmul [Some [Fin 2, Fin 3]] (Some 0) (Some 0)
      = Inr ([Some [Fin 2, Fin 3], None, None, None, Some [Fin 4, Fin 9]], Some 4)"
    using wrappers_run(2)[of "[Some [Fin 2, Fin 3]]" "Some 0" "[Fin 2, Fin 3]" "Some 0"
        "[Fin 2, Fin 3]"]
    by (simp add: deref_def ev)
  have pre: "arrays_at [Some [Fin 2, Fin 3], Some [Fin 0, Fin 0]] 2 (Some 0) (Some 0) 1
      [Fin 2, Fin 3] [Fin 2, Fin 3]"
    by (simp add: arrays_at_def deref_def)
  have k: "vecmul 2 (Some 0) (Some 0) (Some 1) [Some [Fin 2, Fin 3], Some [Fin 0, Fin 0]]
      = Inr [Some [Fin 2, Fin 3], Some [Fin 4, Fin 9]]"
    using kernel_run[OF pre, of dmul] by (simp add: vecmul_def ev)
  show ?thesis
    using w k
      inputs_unchanged[of pyvecmul "[Some [Fin 2, Fin 3]]" "Some 0" "Some 0"
        "[Some [Fin 2, Fin 3], None, None, None, Some [Fin 4, Fin 9]]" "Some 4"]
      inputs_unchanged[of _ "[Some [Fin 2, Fin 3], Some [Fin 0, Fin 0]]" _ _ _ _
        vecmul 2 "Some 0" "Some 0" "Some 1" "[Some [Fin 2, Fin 3], Some [Fin 4, Fin 9]]"]
    by simp
qed

section \<open>The approximation of pi\<close>

lemma dmul_commute: "dmul x y = dmul y x"
proof -
  have "(sign x \<noteq> sign y) = (sign y \<noteq> sign x)" by auto
  then show ?thesis
    unfolding dmul_def by (simp add: mult.commute disj_commute conj_commute)
qed

lemma uint_counter: "0 \<le> i \<Longrightarrow> i < 2 ^ 32 \<Longrightarrow> uint (word_of_int i :: 32 word) = i"
  by (simp add: unsigned_of_int take_bit_int_eq_self)

lemma counter_less:
  "0 \<le> i \<Longrightarrow> i \<le> 2147483647 \<Longrightarrow> ((word_of_int i :: 32 word) < n) = (i < uint n)"
  by (simp add: word_less_def uint_counter)

lemma pi_loop_run:
  assumes "0 \<le> i" "nat i \<le> unat n" "unat n \<le> 2147483647"
  shows "pi_loop n (pi_dh (unat n)) i area =
           Inr (foldl (\<lambda>area k. dadd area (pi_term (unat n) k)) area [nat i..<unat n])"
  using assms
proof (induction "unat n - nat i" arbitrary: i area)
  case 0
  then have "nat i = unat n" by simp
  then have "i = uint n" using 0(2) by (simp add: nat_eq_iff)
  moreover have "\<not> (word_of_int (uint n) :: 32 word) < n" by simp
  ultimately show ?case
    using \<open>nat i = unat n\<close> by (subst pi_loop.simps) simp
next
  case (Suc d)
  then have lt: "nat i < unat n" by simp
  then have iu: "i < uint n" using Suc(3) by (simp add: nat_less_iff)
  have imax: "i < 2147483647" using lt Suc(5) Suc(3) by simp
  have c: "(word_of_int i :: 32 word) < n"
    using counter_less[of i n] Suc(3) imax iu by simp
  have step: "[nat i..<unat n] = nat i # [nat (i + 1)..<unat n]"
    using lt Suc(3) by (simp add: upt_conv_Cons nat_add_distrib)
  have x: "dmul (pi_dh (unat n)) (dsub (Fin (of_int i)) (Fin (1 / 2))) = pi_x (unat n) (nat i)"
    using Suc(3) by (simp add: pi_x_def)
  have "pi_loop n (pi_dh (unat n)) (i + 1) (dadd area (pi_term (unat n) (nat i))) =
      Inr (foldl (\<lambda>area k. dadd area (pi_term (unat n) k))
             (dadd area (pi_term (unat n) (nat i))) [nat (i + 1)..<unat n])"
  proof (rule Suc(1))
    show "d = unat n - nat (i + 1)" using Suc(2) Suc(3) by (simp add: nat_add_distrib)
    show "0 \<le> i + 1" using Suc(3) by simp
    show "nat (i + 1) \<le> unat n" using lt Suc(3) by (simp add: nat_add_distrib)
    show "unat n \<le> 2147483647" by fact
  qed
  then show ?case
    using c imax by (subst pi_loop.simps) (simp add: Let_def x step pi_term_def)
qed

lemma uint_above_int_max: "2147483647 < unat (n::32 word) \<Longrightarrow> 2147483647 < uint n"
proof -
  assume "2147483647 < unat n"
  then have "int 2147483647 < uint n" by (metis of_nat_less_iff uint_nat)
  then show ?thesis by simp
qed

lemma pi_loop_overflow:
  assumes "0 \<le> i" "i \<le> 2147483647" "2147483647 < unat n"
  shows "pi_loop n dh i area = Inl SignedOverflow"
  using assms
proof (induction "nat (2147483647 - i)" arbitrary: i area)
  case 0
  then have i: "i = 2147483647" by simp
  have "(word_of_int i :: 32 word) < n"
    using counter_less[of i n] uint_above_int_max[OF 0(4)] by (simp add: i)
  then show ?case by (subst pi_loop.simps) (simp add: i Let_def)
next
  case (Suc d)
  then have imax: "i < 2147483647" by simp
  have c: "(word_of_int i :: 32 word) < n"
    using counter_less[of i n] uint_above_int_max[OF Suc(5)] Suc(3) imax by simp
  have "pi_loop n dh (i + 1) a' = Inl SignedOverflow" for a'
    using Suc(2) Suc(3) imax Suc(5) by (intro Suc(1)) simp_all
  then show ?case
    using c imax by (subst pi_loop.simps) (simp add: Let_def)
qed

lemma compute_pi_run:
  assumes "unat n \<le> 2147483647"
  shows "compute_pi n = Inr (dmul (pi_sum (unat n) (unat n)) (pi_dh (unat n)))"
proof -
  have "pi_loop n (pi_dh (unat n)) 0 (Fin 0) = Inr (pi_sum (unat n) (unat n))"
    unfolding pi_sum_def using pi_loop_run[of 0 n "Fin 0"] assms by simp
  moreover have "ddiv (Fin 1) (Fin (real (unat n))) = pi_dh (unat n)"
    by (simp only: pi_dh_def)
  ultimately show ?thesis
    unfolding compute_pi_def Let_def by (simp only: sum.case)
qed

text \<open>
  Beyond \<^verbatim>\<open>INT_MAX\<close> partitions the counter, an \<^verbatim>\<open>int\<close>, reaches \<^verbatim>\<open>INT_MAX\<close> inside the
  loop, where C leaves its increment undefined.
\<close>

lemma compute_pi_overflow:
  assumes "2147483647 < unat n"
  shows "compute_pi n = Inl SignedOverflow"
proof -
  have "pi_loop n dh 0 (Fin 0) = Inl SignedOverflow" for dh
    using assms by (intro pi_loop_overflow) simp_all
  then show ?thesis by (simp add: compute_pi_def Let_def)
qed

text \<open>
  From \<open>1\<close> to \<^verbatim>\<open>INT_MAX\<close> partitions the counter does not overflow, and the function
  returns exactly \<open>dh * sum\<close>, where \<open>dh = 1 / n\<close>, \<open>x\<^sub>i = dh * (i - 0.5)\<close> and the sum of
  \<open>4 / (1 + x\<^sub>i\<^sup>2)\<close> is accumulated from zero in the order \<open>i = 0, \<dots>, n - 1\<close>, every
  operation in double precision.
\<close>

lemma compute_pi_is_sum:
  assumes "0 < n" "unat n \<le> 2147483647"
  shows "compute_pi n = Inr (riemann_pi (unat n))"
  unfolding riemann_pi_def compute_pi_run[OF assms(2)]
  by (simp only: dmul_commute[of "pi_dh (unat n)"])

text \<open>Two partitions: the sample points \<open>-1/4\<close> and \<open>1/4\<close>.\<close>

lemma pi_dh_2: "pi_dh 2 = Fin (1 / 2)"
  by (simp add: pi_dh_def ieee_eval)

lemma pi_x_2_0: "pi_x 2 0 = Fin (- 1 / 4)"
  by (simp add: pi_x_def pi_dh_2 ieee_eval)

lemma pi_x_2_1: "pi_x 2 (Suc 0) = Fin (1 / 4)"
  by (simp add: pi_x_def pi_dh_2 ieee_eval)

lemma pi_term_2_0: "pi_term 2 0 = Fin (4238682002231055 / 1125899906842624)"
  by (simp add: pi_term_def pi_x_2_0 ieee_eval)

lemma pi_term_2_1: "pi_term 2 (Suc 0) = Fin (4238682002231055 / 1125899906842624)"
  by (simp add: pi_term_def pi_x_2_1 ieee_eval)

lemma upt_2: "[0..<2] = [0, Suc 0]"
  by (simp add: upt_rec)

lemma pi_sum_2: "pi_sum 2 2 = Fin (4238682002231055 / 562949953421312)"
proof -
  have a1: "dadd (Fin 0) (Fin (4238682002231055 / 1125899906842624))
      = Fin (4238682002231055 / 1125899906842624)"
    by (simp add: ieee_eval)
  have a2: "dadd (Fin (4238682002231055 / 1125899906842624))
      (Fin (4238682002231055 / 1125899906842624)) = Fin (4238682002231055 / 562949953421312)"
    by (simp add: ieee_eval)
  show ?thesis
    by (simp only: pi_sum_def upt_2 foldl.simps pi_term_2_0 pi_term_2_1 a1 a2)
qed

lemma estimate_2:
  "dmul (pi_sum 2 2) (pi_dh 2) = Fin (4238682002231055 / 1125899906842624)"
  unfolding pi_sum_2 pi_dh_2 by (simp add: ieee_eval)

text \<open>
  Claim C4 says that \<open>partitions = 0\<close> fails with an \<open>InvalidArgument\<close> error. The code
  does not test \<open>partitions\<close>: the call does not fail.
\<close>

theorem compute_pi_zero_counterexample: "\<not> isl (compute_pi 0)"
  by (subst compute_pi_def, subst pi_loop.simps) simp

text \<open>
  Claim C4, amended. With \<open>partitions = 0\<close> the function returns the double NaN:
  \<open>dh = 1.0 / 0\<close> is the positive infinity, the loop body never runs, and
  \<open>area * dh = 0.0 * dh\<close> is NaN.
\<close>

theorem compute_pi_zero_is_nan: "compute_pi 0 = Inr NaN"
  by (subst compute_pi_def, subst pi_loop.simps)
     (simp add: ddiv_def dmul_def is_zero_def inf_of_def)

section \<open>The estimate and pi\<close>

lemma arctan_increment:
  assumes "0 \<le> x" "0 \<le> d"
  shows "arctan (x + d) - arctan x \<le> d / (1 + x\<^sup>2)"
proof -
  let ?g = "\<lambda>t. t / (1 + x\<^sup>2) - arctan t"
  have pos: "0 < 1 + x\<^sup>2" by (simp add: add_pos_nonneg)
  then have nz: "1 + x\<^sup>2 \<noteq> 0" by simp
  have "?g x \<le> ?g (x + d)"
  proof (rule DERIV_nonneg_imp_nondecreasing[of x "x + d" ?g])
    show "x \<le> x + d" using assms by simp
    fix t assume t: "x \<le> t" "t \<le> x + d"
    have "DERIV ?g t :> 1 / (1 + x\<^sup>2) - inverse (1 + t\<^sup>2)"
      using nz by (auto intro!: derivative_eq_intros)
    moreover have "inverse (1 + t\<^sup>2) \<le> 1 / (1 + x\<^sup>2)"
    proof -
      have "x\<^sup>2 \<le> t\<^sup>2" using assms(1) t(1) by (simp add: power_mono)
      then have "1 / (1 + t\<^sup>2) \<le> 1 / (1 + x\<^sup>2)"
        by (intro divide_left_mono) (auto simp: add_pos_nonneg)
      then show ?thesis by (simp add: inverse_eq_divide)
    qed
    ultimately show "\<exists>y. DERIV ?g t :> y \<and> 0 \<le> y"
      by (intro exI[of _ "1 / (1 + x\<^sup>2) - inverse (1 + t\<^sup>2)"]) simp
  qed
  then have "arctan (x + d) - arctan x \<le> (x + d) / (1 + x\<^sup>2) - x / (1 + x\<^sup>2)"
    by simp
  also have "\<dots> = d / (1 + x\<^sup>2)" by (simp add: diff_divide_distrib[symmetric])
  finally show ?thesis .
qed

lemma arctan_le_self: "0 \<le> x \<Longrightarrow> arctan x \<le> x"
  using arctan_increment[of 0 x] by simp

lemma pi_le_16_5: "pi \<le> 16 / 5"
proof -
  have "arctan (1 / 5) \<le> 1 / 5" by (rule arctan_le_self) simp
  moreover have "0 \<le> arctan (1 / 239)" by simp
  ultimately show ?thesis using machin by linarith
qed

text \<open>One partition: the sample point \<open>-1/2\<close>.\<close>

lemma pi_dh_1: "pi_dh (Suc 0) = Fin 1"
  by (simp add: pi_dh_def ieee_eval)

lemma pi_x_1_0: "pi_x (Suc 0) 0 = Fin (- 1 / 2)"
  by (simp add: pi_x_def pi_dh_1 ieee_eval)

lemma pi_term_1_0: "pi_term (Suc 0) 0 = Fin (3602879701896397 / 1125899906842624)"
  by (simp add: pi_term_def pi_x_1_0 ieee_eval)

lemma pi_sum_1: "pi_sum (Suc 0) (Suc 0) = Fin (3602879701896397 / 1125899906842624)"
proof -
  have a1: "dadd (Fin 0) (Fin (3602879701896397 / 1125899906842624))
      = Fin (3602879701896397 / 1125899906842624)"
    by (simp add: ieee_eval)
  have u: "[0..<Suc 0] = [0]" by simp
  show ?thesis
    by (simp only: pi_sum_def u foldl.simps pi_term_1_0 a1)
qed

lemma estimate_1:
  "dmul (pi_sum (Suc 0) (Suc 0)) (pi_dh (Suc 0)) = Fin (3602879701896397 / 1125899906842624)"
  unfolding pi_sum_1 pi_dh_1 by (simp add: ieee_eval)

section \<open>The rounding error\<close>

lemma ilog2_lower:
  assumes "0 < x"
  shows "2 powi (ilog2 x) \<le> x"
proof (cases "1 \<le> x")
  case True
  let ?m = "\<lfloor>x\<rfloor>"
  have m: "0 < ?m" using True by simp
  have b: "1 \<le> bitlen ?m" using m by (simp add: bitlen_alt_def)
  have "2 ^ nat (bitlen ?m - 1) \<le> ?m" using bitlen_bounds[OF m] by simp
  then have "(2::real) ^ nat (bitlen ?m - 1) \<le> of_int ?m"
    by (metis of_int_le_iff of_int_numeral of_int_power)
  also have "\<dots> \<le> x" by simp
  finally have "(2::real) ^ nat (bitlen ?m - 1) \<le> x" .
  moreover have "(2::real) powi (bitlen ?m - 1) = 2 ^ nat (bitlen ?m - 1)"
    using b by (simp add: power_int_nonneg_exp)
  ultimately show ?thesis using True by (simp add: ilog2_def)
next
  case False
  let ?c = "\<lceil>1 / x\<rceil>"
  let ?k = "bitlen (?c - 1)"
  have y: "1 < 1 / x" using False assms by simp
  then have c: "0 < ?c - 1" by (simp add: less_ceiling_iff)
  have k: "0 \<le> ?k" by (rule bitlen_nonneg)
  have "?c - 1 < 2 ^ nat ?k" using bitlen_bounds[OF c] by simp
  then have "?c \<le> 2 ^ nat ?k" by simp
  then have "(of_int ?c :: real) \<le> 2 ^ nat ?k"
    by (metis of_int_le_iff of_int_numeral of_int_power)
  moreover have "1 / x \<le> of_int ?c" by simp
  ultimately have "1 / x \<le> 2 ^ nat ?k" by linarith
  then have "1 \<le> 2 ^ nat ?k * x" using assms by (simp add: field_simps)
  then have "1 / 2 ^ nat ?k \<le> x" by (simp add: field_simps)
  moreover have "(2::real) powi (- ?k) = 1 / 2 ^ nat ?k"
    using k by (simp add: power_int_minus power_int_nonneg_exp inverse_eq_divide)
  ultimately show ?thesis using False by (simp add: ilog2_def)
qed

lemma rhe_error: "\<bar>of_int (rhe m) - m\<bar> \<le> 1 / 2"
proof -
  have "of_int \<lfloor>m\<rfloor> \<le> m" "m < of_int \<lfloor>m\<rfloor> + 1" by linarith+
  then show ?thesis
    unfolding rhe_def Let_def by (auto simp: abs_le_iff)
qed

lemma ulp_pos: "0 < ulp x"
  by (simp add: ulp_def)

lemma ulp_le:
  assumes "2 powi (- 1022) \<le> \<bar>x\<bar>"
  shows "ulp x \<le> \<bar>x\<bar> / 2 ^ 52"
proof -
  have x: "0 < \<bar>x\<bar>" using assms zero_less_power_int[of "2::real" "- 1022"] by linarith
  let ?e = "max (ilog2 \<bar>x\<bar>) (- 1022)"
  have "2 powi ?e \<le> \<bar>x\<bar>"
    using ilog2_lower[OF x] assms by (simp add: max_def)
  moreover have "(2::real) powi (?e - 52) = 2 powi ?e / 2 ^ 52"
    by (simp add: power_int_diff)
  ultimately show ?thesis
    unfolding ulp_def by (simp add: divide_right_mono)
qed

lemma rnd_error:
  assumes "2 powi (- 1022) \<le> \<bar>x\<bar>"
  shows "\<bar>rnd x - x\<bar> \<le> \<bar>x\<bar> / 2 ^ 53"
proof -
  have x0: "x \<noteq> 0" using assms zero_less_power_int[of "2::real" "- 1022"] by auto
  let ?u = "ulp x"
  let ?m = "\<bar>x\<bar> / ?u"
  have u: "0 < ?u" by (rule ulp_pos)
  have "rnd x - x = sgn x * (of_int (rhe ?m) * ?u) - sgn x * (?m * ?u)"
    using x0 u by (simp add: rnd_def mult_sgn_abs)
  also have "\<dots> = sgn x * ((of_int (rhe ?m) - ?m) * ?u)"
    by (simp add: algebra_simps)
  finally have "\<bar>rnd x - x\<bar> = \<bar>of_int (rhe ?m) - ?m\<bar> * ?u"
    using x0 u by (simp add: abs_mult abs_sgn_eq)
  also have "\<dots> \<le> (1 / 2) * ?u"
    using rhe_error[of ?m] u by (intro mult_right_mono) simp_all
  also have "\<dots> \<le> (1 / 2) * (\<bar>x\<bar> / 2 ^ 52)"
    using ulp_le[OF assms] by (intro mult_left_mono) simp_all
  also have "\<dots> = \<bar>x\<bar> / 2 ^ 53" by simp
  finally show ?thesis .
qed


lemma in_range_nonzero: "in_range r \<Longrightarrow> r \<noteq> 0"
  using zero_less_power_int[of "2::real" "- 1022"] by (auto simp: in_range_def)

lemma rnd_bounds:
  assumes "in_range r"
  shows "\<bar>r\<bar> * ulo \<le> \<bar>rnd r\<bar>" and "\<bar>rnd r\<bar> \<le> \<bar>r\<bar> * (1 + 1 / 2 ^ 53)"
proof -
  have e: "\<bar>rnd r - r\<bar> \<le> \<bar>r\<bar> / 2 ^ 53"
    using assms by (intro rnd_error) (simp add: in_range_def)
  have "\<bar>r\<bar> - \<bar>rnd r - r\<bar> \<le> \<bar>rnd r\<bar>" by linarith
  then show "\<bar>r\<bar> * ulo \<le> \<bar>rnd r\<bar>" using e by (simp add: ulo_def algebra_simps)
  have "\<bar>rnd r\<bar> \<le> \<bar>r\<bar> + \<bar>rnd r - r\<bar>" by linarith
  then show "\<bar>rnd r\<bar> \<le> \<bar>r\<bar> * (1 + 1 / 2 ^ 53)" using e by (simp add: algebra_simps)
qed

lemma rnd_sign:
  assumes "in_range r" "0 < r"
  shows "0 < rnd r"
proof -
  have "\<bar>rnd r - r\<bar> \<le> r / 2 ^ 53"
    using rnd_error[of r] assms by (simp add: in_range_def)
  moreover have "r / 2 ^ 53 < r" using assms(2) by simp
  ultimately show ?thesis by linarith
qed

lemma mk_Fin:
  assumes "in_range r"
  shows "mk s r = Fin (rnd r)"
proof -
  have r0: "0 < \<bar>r\<bar>" using in_range_nonzero[OF assms] by simp
  have "\<bar>r\<bar> * ulo \<le> \<bar>rnd r\<bar>" by (rule rnd_bounds[OF assms])
  moreover have "0 < \<bar>r\<bar> * ulo" using r0 by (simp add: ulo_def)
  ultimately have nz: "rnd r \<noteq> 0" by auto
  have "\<bar>rnd r\<bar> \<le> \<bar>r\<bar> * (1 + 1 / 2 ^ 53)" by (rule rnd_bounds[OF assms])
  also have "\<dots> \<le> 2 ^ 1000 * (1 + 1 / 2 ^ 53)"
    using assms by (intro mult_right_mono) (simp_all add: in_range_def)
  also have "\<dots> < 2 ^ 1000 * 2 ^ 24" by (intro mult_strict_left_mono) simp_all
  also have "\<dots> = (2::real) ^ 1024" by (simp flip: power_add)
  finally have "\<not> 2 ^ 1024 \<le> \<bar>rnd r\<bar>" by simp
  then show ?thesis using nz by (simp add: mk_def Let_def)
qed

lemma dmul_Fin: "in_range (a * b) \<Longrightarrow> dmul (Fin a) (Fin b) = Fin (rnd (a * b))"
  by (simp add: dmul_def mk_Fin)

lemma ddiv_Fin: "b \<noteq> 0 \<Longrightarrow> in_range (a / b) \<Longrightarrow> ddiv (Fin a) (Fin b) = Fin (rnd (a / b))"
  by (simp add: ddiv_def is_zero_def mk_Fin)

lemma dadd_Fin: "in_range (a + b) \<Longrightarrow> dadd (Fin a) (Fin b) = Fin (rnd (a + b))"
  using in_range_nonzero[of "a + b"] by (simp add: dadd_def mk_Fin)

lemma dsub_Fin: "b \<noteq> 0 \<Longrightarrow> in_range (a - b) \<Longrightarrow> dsub (Fin a) (Fin b) = Fin (rnd (a - b))"
  using dadd_Fin[of a "- b"] by (simp add: dsub_def)

lemma ulo_bounds: "0 < ulo" "ulo \<le> 1" "ulo * (1 + 1 / 2 ^ 53) \<le> 1"
  by (simp_all add: ulo_def algebra_simps)

lemma ulo_pow: "0 < ulo ^ k" "ulo ^ k \<le> 1"
  using ulo_bounds by (simp_all add: power_le_one)

lemma ulo_pow_mono: "j \<le> k \<Longrightarrow> ulo ^ k \<le> ulo ^ j"
  using ulo_bounds by (intro power_decreasing) simp_all

lemma ulo_pow_lower: "1 - real k / 2 ^ 53 \<le> ulo ^ k"
  using Bernoulli_inequality[of "- (1 / 2 ^ 53) :: real" k] by (simp add: ulo_def)

lemma approx_exact: "0 < x \<Longrightarrow> approx 0 x x"
  by (simp add: approx_def)

lemma approx_mono:
  assumes "approx j r x" "j \<le> k"
  shows "approx k r x"
proof -
  from assms(1) have x: "0 < x" and lo: "x * ulo ^ j \<le> \<bar>r\<bar>" and hi: "\<bar>r\<bar> * ulo ^ j \<le> x"
    by (simp_all add: approx_def)
  have p: "ulo ^ k \<le> ulo ^ j" by (rule ulo_pow_mono[OF assms(2)])
  have "x * ulo ^ k \<le> x * ulo ^ j" using x p by (intro mult_left_mono) simp_all
  with lo have 1: "x * ulo ^ k \<le> \<bar>r\<bar>" by linarith
  have "\<bar>r\<bar> * ulo ^ k \<le> \<bar>r\<bar> * ulo ^ j" using p by (intro mult_left_mono) simp_all
  with hi have 2: "\<bar>r\<bar> * ulo ^ k \<le> x" by linarith
  show ?thesis using x 1 2 by (simp add: approx_def)
qed

lemma approx_mult:
  assumes "approx j a x" "approx k b y"
  shows "approx (j + k) (a * b) (x * y)"
proof -
  from assms have x: "0 < x" and y: "0 < y"
    and la: "x * ulo ^ j \<le> \<bar>a\<bar>" and ha: "\<bar>a\<bar> * ulo ^ j \<le> x"
    and lb: "y * ulo ^ k \<le> \<bar>b\<bar>" and hb: "\<bar>b\<bar> * ulo ^ k \<le> y"
    by (simp_all add: approx_def)
  have nx: "0 \<le> x * ulo ^ j" and ny: "0 \<le> y * ulo ^ k"
    using x y ulo_pow(1) by (simp_all add: less_imp_le)
  have na: "0 \<le> \<bar>a\<bar> * ulo ^ j" and nb: "0 \<le> \<bar>b\<bar> * ulo ^ k"
    using ulo_pow(1) by (simp_all add: less_imp_le)
  have "(x * ulo ^ j) * (y * ulo ^ k) \<le> \<bar>a\<bar> * \<bar>b\<bar>"
    using la lb nx ny by (intro mult_mono) simp_all
  then have 1: "x * y * ulo ^ (j + k) \<le> \<bar>a * b\<bar>"
    by (simp add: abs_mult power_add algebra_simps)
  have "(\<bar>a\<bar> * ulo ^ j) * (\<bar>b\<bar> * ulo ^ k) \<le> x * y"
    using ha hb na nb x y by (intro mult_mono) (simp_all add: less_imp_le)
  then have 2: "\<bar>a * b\<bar> * ulo ^ (j + k) \<le> x * y"
    by (simp add: abs_mult power_add algebra_simps)
  show ?thesis using x y 1 2 by (simp add: approx_def)
qed

lemma approx_div:
  assumes "approx j a x" "approx k b y"
  shows "approx (j + k) (a / b) (x / y)"
proof -
  from assms have x: "0 < x" and y: "0 < y"
    and la: "x * ulo ^ j \<le> \<bar>a\<bar>" and ha: "\<bar>a\<bar> * ulo ^ j \<le> x"
    and lb: "y * ulo ^ k \<le> \<bar>b\<bar>" and hb: "\<bar>b\<bar> * ulo ^ k \<le> y"
    by (simp_all add: approx_def)
  have b: "0 < \<bar>b\<bar>"
    using lb y ulo_pow(1)[of k] by (metis less_le_trans mult_pos_pos)
  have nx: "0 \<le> x * ulo ^ j" and ny: "0 \<le> y * ulo ^ k"
    using x y ulo_pow(1) by (simp_all add: less_imp_le)
  have na: "0 \<le> \<bar>a\<bar> * ulo ^ j" and nb: "0 \<le> \<bar>b\<bar> * ulo ^ k"
    using ulo_pow(1) by (simp_all add: less_imp_le)
  have "(x * ulo ^ j) * (\<bar>b\<bar> * ulo ^ k) \<le> \<bar>a\<bar> * y"
    using la hb nx nb by (intro mult_mono) simp_all
  then have 1: "x / y * ulo ^ (j + k) \<le> \<bar>a\<bar> / \<bar>b\<bar>"
    using y b by (simp add: field_simps power_add)
  have "(\<bar>a\<bar> * ulo ^ j) * (y * ulo ^ k) \<le> x * \<bar>b\<bar>"
    using ha lb na ny x by (intro mult_mono) (simp_all add: less_imp_le)
  then have 2: "\<bar>a\<bar> / \<bar>b\<bar> * ulo ^ (j + k) \<le> x / y"
    using y b by (simp add: field_simps power_add)
  show ?thesis using x y 1 2 by (simp add: approx_def)
qed

lemma approx_add:
  assumes "approx k a x" "approx k b y" "0 < a" "0 < b"
  shows "approx k (a + b) (x + y)"
  using assms by (simp add: approx_def algebra_simps)

lemma approx_rnd:
  assumes "approx k r x" "in_range r"
  shows "approx (Suc k) (rnd r) x"
proof -
  from assms(1) have x: "0 < x" and lo: "x * ulo ^ k \<le> \<bar>r\<bar>" and hi: "\<bar>r\<bar> * ulo ^ k \<le> x"
    by (simp_all add: approx_def)
  have "x * ulo ^ k * ulo \<le> \<bar>r\<bar> * ulo"
    using lo ulo_bounds(1) by (intro mult_right_mono) simp_all
  also have "\<dots> \<le> \<bar>rnd r\<bar>" by (rule rnd_bounds[OF assms(2)])
  finally have 1: "x * ulo ^ Suc k \<le> \<bar>rnd r\<bar>" by (simp add: algebra_simps)
  have "\<bar>rnd r\<bar> * ulo \<le> \<bar>r\<bar> * (1 + 1 / 2 ^ 53) * ulo"
    using rnd_bounds(2)[OF assms(2)] ulo_bounds(1) by (intro mult_right_mono) simp_all
  also have "\<dots> = \<bar>r\<bar> * (ulo * (1 + 1 / 2 ^ 53))" by simp
  also have "\<dots> \<le> \<bar>r\<bar> * 1" using ulo_bounds(3) by (intro mult_left_mono) simp_all
  finally have "\<bar>rnd r\<bar> * ulo \<le> \<bar>r\<bar>" by simp
  then have "\<bar>rnd r\<bar> * ulo * ulo ^ k \<le> \<bar>r\<bar> * ulo ^ k"
    using ulo_pow(1)[of k] by (intro mult_right_mono) simp_all
  with hi have 2: "\<bar>rnd r\<bar> * ulo ^ Suc k \<le> x" by (simp add: algebra_simps)
  show ?thesis using x 1 2 by (simp add: approx_def)
qed

lemma approx_in_range:
  assumes "approx k r x" "k \<le> 2 ^ 30" "1 / 2 ^ 100 \<le> x" "x \<le> 2 ^ 100"
  shows "in_range r"
proof -
  from assms(1) have x: "0 < x" and lo: "x * ulo ^ k \<le> \<bar>r\<bar>" and hi: "\<bar>r\<bar> * ulo ^ k \<le> x"
    by (simp_all add: approx_def)
  have "real k \<le> 2 ^ 30" using assms(2) by (metis of_nat_le_iff of_nat_numeral of_nat_power)
  then have "real k / 2 ^ 53 \<le> 2 ^ 30 / 2 ^ 53" by (intro divide_right_mono) simp_all
  then have h: "1 / 2 \<le> ulo ^ k" using ulo_pow_lower[of k] by simp
  have "x * (1 / 2) \<le> x * ulo ^ k" using x h by (intro mult_left_mono) simp_all
  with lo have "x / 2 \<le> \<bar>r\<bar>" by simp
  then have "1 / 2 ^ 101 \<le> \<bar>r\<bar>" using assms(3) by simp
  moreover have "(2::real) powi (- 1022) \<le> 1 / 2 ^ 101"
    by (simp add: power_int_minus inverse_eq_divide)
  ultimately have 1: "2 powi (- 1022) \<le> \<bar>r\<bar>" by linarith
  have "\<bar>r\<bar> * (1 / 2) \<le> \<bar>r\<bar> * ulo ^ k" using h by (intro mult_left_mono) simp_all
  with hi have "\<bar>r\<bar> \<le> 2 * x" by simp
  then have "\<bar>r\<bar> \<le> 2 ^ 101" using assms(4) by simp
  moreover have "(2::real) ^ 101 \<le> 2 ^ 1000" by simp
  ultimately have 2: "\<bar>r\<bar> \<le> 2 ^ 1000" by linarith
  show ?thesis using 1 2 by (simp add: in_range_def)
qed

lemma approx_abs: "r \<noteq> 0 \<Longrightarrow> approx 0 r \<bar>r\<bar>"
  by (simp add: approx_def)

lemma approx_nonzero: "approx k r x \<Longrightarrow> r \<noteq> 0"
proof
  assume a: "approx k r x" and "r = 0"
  then have "x * ulo ^ k \<le> 0" "0 < x" by (simp_all add: approx_def)
  moreover have "0 < x * ulo ^ k" using \<open>0 < x\<close> ulo_pow(1) by simp
  ultimately show False by simp
qed

lemma approx_round:
  assumes "approx k r x" "k \<le> 2 ^ 30" "1 / 2 ^ 100 \<le> x" "x \<le> 2 ^ 100" "k < m"
  shows "approx m (rnd r) x"
proof -
  have r: "in_range r" using assms(1-4) by (rule approx_in_range)
  have "approx (Suc k) (rnd r) x" using assms(1) r by (rule approx_rnd)
  then show "approx m (rnd r) x" by (rule approx_mono) (use assms(5) in simp)
qed

lemma step_bounds:
  assumes n: "1 \<le> n" "n \<le> 2 ^ 20" and i: "i < n"
  shows "1 / 2 ^ 100 \<le> 1 / real n" "1 / real n \<le> 2 ^ 100"
    and "1 / 2 ^ 100 \<le> \<bar>real i - 1 / 2\<bar>" "\<bar>real i - 1 / 2\<bar> \<le> 2 ^ 100"
    and "1 / 2 ^ 21 \<le> 1 / real n * \<bar>real i - 1 / 2\<bar>"
    and "1 / real n * \<bar>real i - 1 / 2\<bar> \<le> 1"
proof -
  have rn: "1 \<le> real n" "real n \<le> 2 ^ 20"
    using n by (simp, metis of_nat_le_iff of_nat_numeral of_nat_power)
  have t: "1 / 2 \<le> \<bar>real i - 1 / 2\<bar>" by (cases i) (simp_all add: abs_if)
  have t': "\<bar>real i - 1 / 2\<bar> \<le> real n" using i by (simp add: abs_if)
  have d: "1 / 2 ^ 20 \<le> 1 / real n" using rn by (intro divide_left_mono) simp_all
  have c1: "(1::real) / 2 ^ 100 \<le> 1 / 2 ^ 20" by simp
  show "1 / 2 ^ 100 \<le> 1 / real n" by (rule order_trans[OF c1 d])
  have "1 / real n \<le> 1" using rn by simp
  then show "1 / real n \<le> 2 ^ 100" by (rule order_trans) simp
  have c2: "(1::real) / 2 ^ 100 \<le> 1 / 2" by simp
  show "1 / 2 ^ 100 \<le> \<bar>real i - 1 / 2\<bar>" by (rule order_trans[OF c2 t])
  have c3: "real n \<le> 2 ^ 100" by (rule order_trans[OF rn(2)]) simp
  show "\<bar>real i - 1 / 2\<bar> \<le> 2 ^ 100" by (rule order_trans[OF t' c3])
  have "1 / 2 ^ 20 * (1 / 2) \<le> 1 / real n * \<bar>real i - 1 / 2\<bar>"
    using d t by (intro mult_mono) simp_all
  moreover have "(1::real) / 2 ^ 21 = 1 / 2 ^ 20 * (1 / 2)" by simp
  ultimately show "1 / 2 ^ 21 \<le> 1 / real n * \<bar>real i - 1 / 2\<bar>" by (simp only:)
  have "1 / real n * \<bar>real i - 1 / 2\<bar> \<le> 1 / real n * real n"
    using t' rn by (intro mult_left_mono) simp_all
  also have "\<dots> = 1" using rn by simp
  finally show "1 / real n * \<bar>real i - 1 / 2\<bar> \<le> 1" .
qed

lemma term_shadow:
  assumes n: "1 \<le> n" "n \<le> 2 ^ 20" and i: "i < n"
  shows "pi_dh n = Fin (r_dh n)"
    and "approx 1 (r_dh n) (1 / real n)"
    and "pi_term n i = Fin (r_term n i)"
    and "approx 9 (r_term n i) (e_term n i)"
    and "0 < r_term n i"
proof -
  define t where "t = real i - 1 / 2"
  define h where "h = 1 / real n"
  define X where "X = h * \<bar>t\<bar>"
  define Q where "Q = X * X"
  note b = step_bounds[OF n i, folded t_def h_def, folded X_def]
  have n0: "0 < real n" using n by simp
  \<comment> \<open>the step\<close>
  have h0: "0 < h" using n0 by (simp add: h_def)
  have d0: "approx 0 h h" using h0 by (rule approx_exact)
  have d: "in_range h" "approx 1 (rnd h) h"
    by (rule approx_in_range[OF d0 _ b(1,2)], simp, rule approx_round[OF d0 _ b(1,2)], simp_all)
  have "ddiv (Fin 1) (Fin (real n)) = Fin (rnd (1 / real n))"
    using n0 d(1) by (intro ddiv_Fin) (simp_all add: h_def)
  then show dh: "pi_dh n = Fin (r_dh n)" by (simp only: pi_dh_def r_dh_def)
  have rh: "r_dh n = rnd h" by (simp only: r_dh_def h_def)
  show "approx 1 (r_dh n) (1 / real n)" using d(2) by (simp only: r_dh_def h_def)
  have d1: "approx 1 (r_dh n) h" using d(2) by (simp only: rh)
  \<comment> \<open>the sample point\<close>
  have t0: "t \<noteq> 0" using b(3) by auto
  have t: "in_range t" "approx 1 (rnd t) \<bar>t\<bar>"
    by (rule approx_in_range[OF approx_abs[OF t0] _ b(3,4)], simp,
        rule approx_round[OF approx_abs[OF t0] _ b(3,4)], simp_all)
  have "dsub (Fin (real i)) (Fin (1 / 2)) = Fin (rnd (real i - 1 / 2))"
    using t(1) by (intro dsub_Fin) (simp_all add: t_def)
  then have ts: "dsub (Fin (real i)) (Fin (1 / 2)) = Fin (rnd t)" by (simp only: t_def)
  have x0: "approx (1 + 1) (r_dh n * rnd t) X"
    unfolding X_def by (rule approx_mult[OF d1 t(2)])
  have xl: "1 / 2 ^ 100 \<le> X" by (rule order_trans[OF _ b(5)]) simp
  have xh: "X \<le> 2 ^ 100" by (rule order_trans[OF b(6)]) simp
  have x: "in_range (r_dh n * rnd t)" "approx 3 (rnd (r_dh n * rnd t)) X"
    by (rule approx_in_range[OF x0 _ xl xh], simp, rule approx_round[OF x0 _ xl xh], simp_all)
  have rx: "r_x n i = rnd (r_dh n * rnd t)" by (simp only: r_x_def t_def)
  have xs: "pi_x n i = Fin (r_x n i)"
    unfolding pi_x_def rx dh ts using x(1) by (rule dmul_Fin)
  have x3: "approx 3 (r_x n i) X" unfolding rx by (rule x(2))
  \<comment> \<open>its square\<close>
  have q0: "approx (3 + 3) (r_x n i * r_x n i) Q"
    unfolding Q_def by (rule approx_mult[OF x3 x3])
  have X0: "0 \<le> X" using h0 by (simp add: X_def)
  have "1 / 2 ^ 21 * (1 / 2 ^ 21) \<le> X * X" using b(5) by (intro mult_mono) simp_all
  then have "1 / 2 ^ 21 * (1 / 2 ^ 21) \<le> Q" by (simp only: Q_def)
  then have ql: "1 / 2 ^ 100 \<le> Q" by (rule order_trans[rotated]) simp
  have "X * X \<le> 1 * 1" using b(6) X0 by (intro mult_mono) simp_all
  then have qh1: "Q \<le> 1" by (simp only: mult_1 Q_def)
  have qh: "Q \<le> 2 ^ 100" by (rule order_trans[OF qh1]) simp
  have qp: "0 < Q" using ql by (rule less_le_trans[rotated]) simp
  define sq where "sq = rnd (r_x n i * r_x n i)"
  have q: "in_range (r_x n i * r_x n i)" "approx 7 sq Q"
    unfolding sq_def
    by (rule approx_in_range[OF q0 _ ql qh], simp, rule approx_round[OF q0 _ ql qh], simp_all)
  have xx: "dmul (pi_x n i) (pi_x n i) = Fin sq"
    unfolding xs sq_def using q(1) by (rule dmul_Fin)
  have rx0: "r_x n i \<noteq> 0" using x3 by (rule approx_nonzero)
  then have "0 < (r_x n i)\<^sup>2" by simp
  then have "0 < r_x n i * r_x n i" by (simp only: power2_eq_square)
  then have sq0: "0 < sq" unfolding sq_def using q(1) by (intro rnd_sign)
  \<comment> \<open>the denominator\<close>
  have one: "approx 7 1 1" by (rule approx_mono[OF approx_exact]) simp_all
  have p0: "approx 7 (1 + sq) (1 + Q)"
    using one q(2) _ sq0 by (rule approx_add) simp
  have pl: "1 / 2 ^ 100 \<le> 1 + Q" using qp by simp
  have ph: "1 + Q \<le> 2 ^ 100" using qh1 by simp
  define den where "den = rnd (1 + sq)"
  have p: "in_range (1 + sq)" "approx 8 den (1 + Q)"
    unfolding den_def
    by (rule approx_in_range[OF p0 _ pl ph], simp, rule approx_round[OF p0 _ pl ph], simp_all)
  have dn: "dadd (Fin 1) (dmul (pi_x n i) (pi_x n i)) = Fin den"
    unfolding xx den_def using p(1) by (rule dadd_Fin)
  have "0 < 1 + sq" using sq0 by simp
  then have den0: "0 < den" unfolding den_def using p(1) by (intro rnd_sign)
  \<comment> \<open>the term\<close>
  have four: "approx 0 4 4" by (intro approx_exact) simp
  have f0: "approx (0 + 8) (4 / den) (4 / (1 + Q))" by (rule approx_div[OF four p(2)])
  have "2 \<le> 4 / (1 + Q)" using qh1 qp by (simp add: field_simps)
  then have fl: "1 / 2 ^ 100 \<le> 4 / (1 + Q)" by (rule order_trans[rotated]) simp
  have "4 / (1 + Q) \<le> 4" using qp by (simp add: field_simps)
  then have fh: "4 / (1 + Q) \<le> 2 ^ 100" by (rule order_trans) simp
  have f: "in_range (4 / den)" "approx 9 (rnd (4 / den)) (4 / (1 + Q))"
    by (rule approx_in_range[OF f0 _ fl fh], simp, rule approx_round[OF f0 _ fl fh], simp_all)
  have den_nz: "den \<noteq> 0" using den0 by simp
  have rt: "r_term n i = rnd (4 / den)" by (simp only: r_term_def den_def sq_def)
  show "pi_term n i = Fin (r_term n i)"
    unfolding pi_term_def rt dn using den_nz f(1) by (rule ddiv_Fin)
  have "X = \<bar>t / real n\<bar>" using n0 by (simp add: X_def h_def)
  then have "Q = (t / real n)\<^sup>2" by (simp add: Q_def power2_eq_square)
  then have e: "e_term n i = 4 / (1 + Q)" by (simp only: e_term_def t_def)
  show "approx 9 (r_term n i) (e_term n i)"
    unfolding rt e by (rule f(2))
  have "0 < 4 / den" using den0 by simp
  then show "0 < r_term n i" unfolding rt using f(1) by (intro rnd_sign)
qed


lemma ulo_pow_half:
  assumes "k \<le> 2 ^ 30"
  shows "1 / 2 \<le> ulo ^ k"
proof -
  have "real k \<le> 2 ^ 30" using assms by (metis of_nat_le_iff of_nat_numeral of_nat_power)
  then have "real k / 2 ^ 53 \<le> 2 ^ 30 / 2 ^ 53" by (intro divide_right_mono) simp_all
  then show ?thesis using ulo_pow_lower[of k] by simp
qed

lemma e_term_bounds:
  assumes "i < n"
  shows "2 \<le> e_term n i" and "e_term n i \<le> 4"
proof -
  define q where "q = ((real i - 1 / 2) / real n)\<^sup>2"
  have n0: "0 < real n" using assms by simp
  have "\<bar>real i - 1 / 2\<bar> \<le> real n" using assms by (simp add: abs_if)
  then have "\<bar>(real i - 1 / 2) / real n\<bar> \<le> 1" using n0 by (simp add: field_simps)
  then have q1: "q \<le> 1" unfolding q_def by (simp add: abs_square_le_1)
  have q0: "0 \<le> q" unfolding q_def by simp
  have e: "e_term n i = 4 / (1 + q)" by (simp only: e_term_def q_def)
  show "2 \<le> e_term n i" unfolding e using q0 q1 by (simp add: field_simps)
  show "e_term n i \<le> 4" unfolding e using q0 by (simp add: field_simps)
qed

lemma r_dh_pos:
  assumes "1 \<le> n" "n \<le> 2 ^ 20"
  shows "0 < r_dh n"
proof -
  have "0 < n" using assms by simp
  note b = step_bounds[OF assms this]
  have n0: "0 < 1 / real n" using assms by simp
  have "in_range (1 / real n)"
    by (rule approx_in_range[OF approx_exact[OF n0] _ b(1,2)]) simp
  then show ?thesis unfolding r_dh_def using n0 by (intro rnd_sign)
qed

lemma sum_shadow:
  assumes n: "1 \<le> n" "n \<le> 2 ^ 20" and k: "k \<le> n"
  shows "pi_sum n k = Fin (r_sum n k) \<and> 0 \<le> r_sum n k \<and> r_sum n k \<le> 16 * real k
     \<and> ulo ^ (9 + k) * (\<Sum>i<k. e_term n i) \<le> r_sum n k"
  using k
proof (induction k)
  case 0
  show ?case by (simp add: pi_sum_def)
next
  case (Suc k)
  then have kn: "k < n" and IH: "pi_sum n k = Fin (r_sum n k)" "0 \<le> r_sum n k"
    "r_sum n k \<le> 16 * real k" "ulo ^ (9 + k) * (\<Sum>i<k. e_term n i) \<le> r_sum n k"
    by simp_all
  define a where "a = r_sum n k"
  define tm where "tm = r_term n k"
  define E where "E = (\<Sum>i<k. e_term n i)"
  define e where "e = e_term n k"
  note ts = term_shadow[OF n kn, folded tm_def e_def]
  note eb = e_term_bounds[OF kn, folded e_def]
  have a0: "0 \<le> a" and ah: "a \<le> 16 * real k" and al: "ulo ^ (9 + k) * E \<le> a"
    using IH by (simp_all add: a_def E_def)
  have t0: "0 < tm" by (rule ts(5))
  have e0: "0 < e" using eb(1) by simp
  have h9: "1 / 2 \<le> ulo ^ 9" by (rule ulo_pow_half) simp
  have tl: "e * ulo ^ 9 \<le> tm" and th: "tm * ulo ^ 9 \<le> e"
    using ts(4) t0 by (simp_all add: approx_def)
  have "tm * (1 / 2) \<le> tm * ulo ^ 9" using h9 t0 by (intro mult_left_mono) simp_all
  then have t8: "tm \<le> 8" using th eb(2) by simp
  have "2 * (1 / 2) \<le> e * ulo ^ 9" using eb(1) h9 by (intro mult_mono) simp_all
  then have t1: "1 \<le> tm" using tl by simp
  have rk: "real k \<le> 2 ^ 20"
    using kn n(2) by (metis less_imp_le order_trans of_nat_le_iff of_nat_numeral of_nat_power)
  have s1: "1 \<le> a + tm" using a0 t1 by simp
  have sh: "a + tm \<le> 16 * real k + 8" using ah t8 by simp
  have rng: "in_range (a + tm)"
  proof -
    have "(2::real) powi (- 1022) \<le> 1"
      by (simp add: power_int_minus inverse_eq_divide)
    then have "2 powi (- 1022) \<le> \<bar>a + tm\<bar>" using s1 by simp
    moreover have "a + tm \<le> 16 * 2 ^ 20 + 8" using sh rk by simp
    then have "\<bar>a + tm\<bar> \<le> 2 ^ 1000" using s1 by simp
    ultimately show ?thesis by (simp add: in_range_def)
  qed
  have rs: "r_sum n (Suc k) = rnd (a + tm)" by (simp add: a_def tm_def)
  have "[0..<Suc k] = [0..<k] @ [k]" by simp
  then have "pi_sum n (Suc k) = dadd (pi_sum n k) (pi_term n k)"
    unfolding pi_sum_def by (simp only: foldl_append foldl.simps)
  also have "\<dots> = dadd (Fin a) (Fin tm)" by (simp only: IH(1) ts(3) a_def)
  also have "\<dots> = Fin (rnd (a + tm))" using rng by (rule dadd_Fin)
  finally have 1: "pi_sum n (Suc k) = Fin (r_sum n (Suc k))" by (simp only: rs)
  have pos: "0 < rnd (a + tm)" using rng s1 by (intro rnd_sign) simp_all
  have 2: "0 \<le> r_sum n (Suc k)" unfolding rs using pos by simp
  have "rnd (a + tm) \<le> (a + tm) * (1 + 1 / 2 ^ 53)"
    using rnd_bounds(2)[OF rng] pos s1 by simp
  also have "\<dots> \<le> (16 * real k + 8) * (1 + 1 / 2 ^ 53)"
    using sh by (intro mult_right_mono) simp_all
  also have "\<dots> \<le> 16 * real k + 16" using rk by (simp add: algebra_simps)
  finally have 3: "r_sum n (Suc k) \<le> 16 * real (Suc k)" unfolding rs by simp
  have E0: "0 \<le> E" unfolding E_def using e_term_bounds(1) kn
    by (intro sum_nonneg) (simp add: less_trans[THEN e_term_bounds(1), THEN order_trans[rotated]])
  have "ulo ^ (9 + k) * e \<le> ulo ^ 9 * e"
    using ulo_pow_mono[of 9 "9 + k"] e0 by (intro mult_right_mono) simp_all
  then have "ulo ^ (9 + k) * (E + e) \<le> a + tm"
    using al tl by (simp add: algebra_simps)
  then have "ulo ^ (9 + k) * (E + e) * ulo \<le> (a + tm) * ulo"
    using ulo_bounds(1) by (intro mult_right_mono) simp_all
  also have "\<dots> \<le> rnd (a + tm)" using rnd_bounds(1)[OF rng] pos s1 by simp
  finally have "ulo ^ (9 + k) * (E + e) * ulo \<le> rnd (a + tm)" .
  moreover have "ulo ^ (9 + Suc k) = ulo ^ (9 + k) * ulo"
    by (simp only: add_Suc_right power_Suc2)
  moreover have "(\<Sum>i<Suc k. e_term n i) = E + e" by (simp add: E_def e_def)
  ultimately have 4: "ulo ^ (9 + Suc k) * (\<Sum>i<Suc k. e_term n i) \<le> r_sum n (Suc k)"
    unfolding rs by (simp only: mult.assoc mult.commute[of ulo])
  show ?case using 1 2 3 4 by simp
qed

lemma pi_shadow:
  assumes n: "1 \<le> n" "n \<le> 2 ^ 20"
  shows "dmul (pi_sum n n) (pi_dh n) = Fin (r_pi n)"
    and "ulo ^ (11 + n) * ((\<Sum>i<n. e_term n i) / real n) \<le> r_pi n"
proof -
  define a where "a = r_sum n n"
  define h where "h = r_dh n"
  define E where "E = (\<Sum>i<n. e_term n i)"
  define d where "d = 1 / real n"
  have n0: "0 < n" using n by simp
  have rn: "1 \<le> real n" "real n \<le> 2 ^ 20"
    using n by (simp, metis of_nat_le_iff of_nat_numeral of_nat_power)
  have d0: "0 < d" using rn by (simp add: d_def)
  note ss = sum_shadow[OF n order_refl, folded a_def E_def]
  have sa: "pi_sum n n = Fin a" and ah: "a \<le> 16 * real n" and al: "ulo ^ (9 + n) * E \<le> a"
    using ss by simp_all
  have sh: "pi_dh n = Fin h" unfolding h_def by (rule term_shadow(1)[OF n n0])
  have hp: "0 < h" unfolding h_def by (rule r_dh_pos[OF n])
  have "approx 1 h d" unfolding h_def d_def by (rule term_shadow(2)[OF n n0])
  then have hl: "d * ulo \<le> h" and hh: "h * ulo \<le> d" using hp by (simp_all add: approx_def)
  have "real (card {..<n}) * 2 \<le> E"
    unfolding E_def by (rule sum_bounded_below) (simp add: e_term_bounds(1))
  then have E2: "2 * real n \<le> E" by simp
  have hn: "1 / 2 \<le> ulo ^ (9 + n)" using n(2) by (intro ulo_pow_half) simp
  have "2 * real n * (1 / 2) \<le> E * ulo ^ (9 + n)"
    using E2 hn rn by (intro mult_mono) simp_all
  then have an: "real n \<le> a" using al by (simp add: mult.commute)
  have a0: "0 < a" using an rn by simp
  have u2: "1 / 2 \<le> ulo" using ulo_pow_half[of 1] by simp
  have "real n * (d * (1 / 2)) \<le> a * (d * ulo)"
    using an u2 d0 rn by (intro mult_mono) simp_all
  also have "\<dots> \<le> a * h" using hl a0 by (intro mult_left_mono) simp_all
  finally have pl: "1 / 2 \<le> a * h" using rn by (simp add: d_def)
  have "h * (1 / 2) \<le> h * ulo" using u2 hp by (intro mult_left_mono) simp_all
  then have h2: "h \<le> 2 * d" using hh by simp
  have "a * h \<le> (16 * real n) * (2 * d)" using ah h2 a0 hp by (intro mult_mono) simp_all
  also have "\<dots> = 32" using rn by (simp add: d_def)
  finally have ph: "a * h \<le> 32" .
  have rng: "in_range (a * h)"
  proof -
    have "(2::real) powi (- 1022) \<le> 1 / 2"
      by (simp add: power_int_minus inverse_eq_divide)
    then have "2 powi (- 1022) \<le> \<bar>a * h\<bar>" using pl by simp
    moreover have "\<bar>a * h\<bar> \<le> 2 ^ 1000" using ph pl by simp
    ultimately show ?thesis by (simp add: in_range_def)
  qed
  have rp: "r_pi n = rnd (a * h)" by (simp only: r_pi_def a_def h_def)
  show "dmul (pi_sum n n) (pi_dh n) = Fin (r_pi n)"
    unfolding sa sh rp using rng by (rule dmul_Fin)
  have pos: "0 < rnd (a * h)" using rng pl by (intro rnd_sign) simp_all
  have "ulo ^ (9 + n) * E * (d * ulo) \<le> a * h"
    using al hl d0 ulo_bounds(1) a0 by (intro mult_mono) (simp_all add: less_imp_le)
  then have "ulo ^ (9 + n) * E * (d * ulo) * ulo \<le> a * h * ulo"
    using ulo_bounds(1) by (intro mult_right_mono) simp_all
  also have "\<dots> \<le> rnd (a * h)" using rnd_bounds(1)[OF rng] pos pl by simp
  finally have "ulo ^ (9 + n) * E * (d * ulo) * ulo \<le> rnd (a * h)" .
  moreover have "ulo ^ (11 + n) * (E / real n) = ulo ^ (9 + n) * E * (d * ulo) * ulo"
    by (simp add: d_def power_add power2_eq_square eval_nat_numeral)
  ultimately show "ulo ^ (11 + n) * ((\<Sum>i<n. e_term n i) / real n) \<le> r_pi n"
    unfolding rp E_def by simp
qed

lemma exact_sum_1000: "pi + 99 / 100000 \<le> (\<Sum>i<1000. e_term 1000 i) / 1000"
proof -
  define g where "g i = arctan ((real i - 1 / 2) / 1000)" for i :: nat
  have step: "4 * (g (Suc i) - g i) \<le> e_term 1000 i / 1000" if "1 \<le> i" for i
  proof -
    define x where "x = (real i - 1 / 2) / 1000"
    have x0: "0 \<le> x" using that by (simp add: x_def)
    have "arctan (x + 1 / 1000) - arctan x \<le> (1 / 1000) / (1 + x\<^sup>2)"
      using x0 by (rule arctan_increment) simp
    moreover have "(real (Suc i) - 1 / 2) / 1000 = x + 1 / 1000"
      by (simp add: x_def field_simps)
    ultimately have "g (Suc i) - g i \<le> (1 / 1000) / (1 + x\<^sup>2)"
      by (simp only: g_def x_def)
    then have "4 * (g (Suc i) - g i) \<le> 4 * ((1 / 1000) / (1 + x\<^sup>2))"
      by (intro mult_left_mono) simp_all
    also have "\<dots> = 4 / (1 + x\<^sup>2) / 1000" by simp
    also have "\<dots> = e_term 1000 i / 1000" by (simp only: e_term_def x_def of_nat_numeral)
    finally show ?thesis .
  qed
  have "4 * (g 1000 - g (Suc 0)) = 4 * g 1000 - 4 * g (Suc 0)" by simp
  also have "\<dots> = (\<Sum>i = Suc 0..<1000. 4 * g (Suc i) - 4 * g i)"
    by (rule sum_Suc_diff'[of "Suc 0" 1000 "\<lambda>i. 4 * g i", symmetric]) simp
  also have "\<dots> \<le> (\<Sum>i = Suc 0..<1000. e_term 1000 i / 1000)"
  proof (rule sum_mono)
    fix i :: nat assume "i \<in> {Suc 0..<1000}"
    then have "1 \<le> i" by simp
    from step[OF this] show "4 * g (Suc i) - 4 * g i \<le> e_term 1000 i / 1000"
      by (simp only: right_diff_distrib)
  qed
  also have "\<dots> = (\<Sum>i = Suc 0..<1000. e_term 1000 i) / 1000"
    by (rule sum_divide_distrib[symmetric])
  finally have tail:
    "4 * (g 1000 - g (Suc 0)) \<le> (\<Sum>i = Suc 0..<1000. e_term 1000 i) / 1000" .
  have "(\<Sum>i<1000. e_term 1000 i) = (\<Sum>i = 0..<1000. e_term 1000 i)"
    by (simp only: lessThan_atLeast0)
  also have "\<dots> = e_term 1000 0 + (\<Sum>i = Suc 0..<1000. e_term 1000 i)"
    by (rule sum.atLeast_Suc_lessThan) simp
  finally have split:
    "(\<Sum>i<1000. e_term 1000 i) = e_term 1000 0 + (\<Sum>i = Suc 0..<1000. e_term 1000 i)" .
  have g1: "g (Suc 0) \<le> 1 / 2000"
  proof -
    have "arctan (1 / 2000) \<le> 1 / 2000" by (rule arctan_le_self) simp
    then show ?thesis by (simp add: g_def)
  qed
  have gn: "pi / 4 - (1 / 2000) / (1 + (1999 / 2000)\<^sup>2) \<le> g 1000"
  proof -
    have "arctan (1999 / 2000 + 1 / 2000) - arctan (1999 / 2000)
        \<le> (1 / 2000) / (1 + (1999 / 2000)\<^sup>2)"
      by (rule arctan_increment) simp_all
    moreover have "arctan (1999 / 2000 + 1 / 2000) = pi / 4"
      using arctan_one by simp
    moreover have "g 1000 = arctan (1999 / 2000)" by (simp add: g_def)
    ultimately show ?thesis by simp
  qed
  have e0: "e_term 1000 0 = 4 / (1 + (1 / 2000)\<^sup>2)"
    by (simp add: e_term_def power2_eq_square)
  have "pi + 99 / 100000 \<le> 4 / (1 + (1 / 2000)\<^sup>2) / 1000
      + 4 * (pi / 4 - (1 / 2000) / (1 + (1999 / 2000)\<^sup>2) - 1 / 2000)"
    by (simp add: power2_eq_square)
  also have "\<dots> \<le> e_term 1000 0 / 1000 + 4 * (g 1000 - g (Suc 0))"
    unfolding e0 using g1 gn by simp
  also have "\<dots> \<le> e_term 1000 0 / 1000 + (\<Sum>i = Suc 0..<1000. e_term 1000 i) / 1000"
    using tail by (rule add_left_mono)
  also have "\<dots> = (\<Sum>i<1000. e_term 1000 i) / 1000"
    unfolding split by (rule add_divide_distrib[symmetric])
  finally show ?thesis .
qed

lemma estimate_1000:
  shows "compute_pi 1000 = Inr (Fin (r_pi 1000))" and "pi + 1 / 10000 < r_pi 1000"
proof -
  have n: "(1::nat) \<le> 1000" "(1000::nat) \<le> 2 ^ 20" by simp_all
  have "compute_pi 1000 = Inr (dmul (pi_sum (unat (1000::32 word)) (unat (1000::32 word)))
      (pi_dh (unat (1000::32 word))))"
    by (rule compute_pi_run) simp
  moreover have "unat (1000::32 word) = 1000" by simp
  ultimately show "compute_pi 1000 = Inr (Fin (r_pi 1000))"
    by (simp only: pi_shadow(1)[OF n])
  define S where "S = (\<Sum>i<1000. e_term 1000 i) / 1000"
  have S: "pi + 99 / 100000 \<le> S" unfolding S_def by (rule exact_sum_1000)
  have lo: "ulo ^ 1011 * S \<le> r_pi 1000"
    using pi_shadow(2)[OF n] by (simp add: S_def)
  have u: "1 - 1011 / 2 ^ 53 \<le> ulo ^ 1011" using ulo_pow_lower[of 1011] by simp
  have S0: "0 < S" using S pi_gt_zero by linarith
  have "(1 - 1011 / 2 ^ 53) * (pi + 99 / 100000) \<le> ulo ^ 1011 * S"
    using u S S0 pi_gt_zero ulo_bounds(1) by (intro mult_mono) (simp_all add: less_imp_le)
  moreover have "pi + 1 / 10000 < (1 - 1011 / 2 ^ 53) * (pi + 99 / 100000)"
    using pi_le_16_5 by (simp add: algebra_simps)
  ultimately show "pi + 1 / 10000 < r_pi 1000" using lo by linarith
qed

text \<open>
  Claim C7 says that the estimate comes monotonically closer to \<open>pi\<close> as \<open>partitions\<close>
  grows, and that \<open>partitions = 1000\<close> gives an estimate within \<open>1 / 10000\<close> of \<open>pi\<close>. The
  sample points \<open>dh * (i - 0.5)\<close> for \<open>i\<close> from \<open>0\<close> are the midpoints shifted down by
  one step. With one partition the code returns \<open>3.2\<close> (to the nearest double), with two
  the double nearest to \<open>64 / 17\<close>, which is further from \<open>pi\<close>; with a thousand it
  returns a double above \<open>pi + 1 / 10000\<close>.
\<close>

theorem compute_pi_misses_pi:
  "compute_pi 1 = Inr (Fin (3602879701896397 / 1125899906842624))
   \<and> compute_pi 2 = Inr (Fin (4238682002231055 / 1125899906842624))
   \<and> \<bar>3602879701896397 / 1125899906842624 - pi\<bar>
       < \<bar>4238682002231055 / 1125899906842624 - pi\<bar>
   \<and> (\<exists>r. compute_pi 1000 = Inr (Fin r) \<and> pi + 1 / 10000 < r)"
proof -
  have "compute_pi 1 = Inr (dmul (pi_sum (unat (1::32 word)) (unat (1::32 word)))
      (pi_dh (unat (1::32 word))))"
    by (rule compute_pi_run) simp
  then have one: "compute_pi 1 = Inr (Fin (3602879701896397 / 1125899906842624))"
    by (simp add: estimate_1)
  have "compute_pi 2 = Inr (dmul (pi_sum (unat (2::32 word)) (unat (2::32 word)))
      (pi_dh (unat (2::32 word))))"
    by (rule compute_pi_run) simp
  then have two: "compute_pi 2 = Inr (Fin (4238682002231055 / 1125899906842624))"
    by (simp add: estimate_2)
  have "pi \<le> 3602879701896397 / 1125899906842624"
    using pi_le_16_5 by simp
  then have far: "\<bar>3602879701896397 / 1125899906842624 - pi\<bar>
      < \<bar>4238682002231055 / 1125899906842624 - pi\<bar>"
    by simp
  have "compute_pi 1000 = Inr (Fin (r_pi 1000)) \<and> pi + 1 / 10000 < r_pi 1000"
    by (rule conjI[OF estimate_1000(1) estimate_1000(2)])
  then have "\<exists>r. compute_pi 1000 = Inr (Fin r) \<and> pi + 1 / 10000 < r"
    by (rule exI)
  with one two far show ?thesis by (simp only: simp_thms)
qed

section \<open>The counter beyond INT_MAX\<close>

lemma counter_low: "k < 2147483648 \<Longrightarrow> counter k = int k"
  unfolding counter_def by (simp add: signed_of_nat signed_take_bit_int_eq_self)

lemma counter_high:
  assumes "2147483648 \<le> k" "k < 4294967296"
  shows "counter k = int k - 4294967296"
proof -
  have "signed_take_bit 31 (int k - 4294967296) = int k - 4294967296"
    using assms by (intro signed_take_bit_int_eq_self) simp_all
  moreover have "signed_take_bit 31 (int k - 4294967296) = signed_take_bit 31 (int k)"
    using signed_take_bit_diff[of 31 "int k" 4294967296] by simp
  ultimately show ?thesis
    unfolding counter_def by (simp add: signed_of_nat)
qed

lemma pi_loop_wrapv_run:
  assumes "i \<le> n"
  shows "pi_loop_wrapv n dh i area =
           foldl (\<lambda>area k. dadd area (pi_term_at dh (counter k))) area [unat i..<unat n]"
  using assms
proof (induction "unat n - unat i" arbitrary: i area)
  case 0
  then have "\<not> i < n" by (simp add: word_less_nat_alt)
  moreover have "unat n \<le> unat i" using 0 by simp
  ultimately show ?case by (subst pi_loop_wrapv.simps) simp
next
  case (Suc d)
  from Suc(2) have lt: "i < n" by (simp add: word_less_nat_alt)
  then have ui: "unat i < unat n" by (simp add: word_less_nat_alt)
  have su: "unat (i + 1) = Suc (unat i)" using lt by (rule word32_succ)
  have c: "counter (unat i) = sint i" by (simp add: counter_def)
  have step: "[unat i..<unat n] = unat i # [unat (i + 1)..<unat n]"
    using ui su by (simp add: upt_conv_Cons)
  have le: "i + 1 \<le> n" using lt by (simp add: inc_le)
  have "pi_loop_wrapv n dh (i + 1) a' =
      foldl (\<lambda>area k. dadd area (pi_term_at dh (counter k))) a' [unat (i + 1)..<unat n]" for a'
    using Suc(2) su le by (intro Suc(1)) simp_all
  then show ?case
    using lt by (subst pi_loop_wrapv.simps) (simp add: Let_def step pi_term_at_def c)
qed

lemma compute_pi_wrapv_run:
  "compute_pi_wrapv n = dmul (pi_sum_at (pi_dh (unat n)) counter (unat n)) (pi_dh (unat n))"
proof -
  have "pi_loop_wrapv n dh 0 (Fin 0) = pi_sum_at dh counter (unat n)" for dh
    unfolding pi_sum_at_def using pi_loop_wrapv_run[of 0 n dh "Fin 0"] by simp
  moreover have "ddiv (Fin 1) (Fin (real (unat n))) = pi_dh (unat n)"
    by (simp only: pi_dh_def)
  ultimately show ?thesis
    unfolding compute_pi_wrapv_def Let_def by (simp only:)
qed

lemma pi_term_at_int: "pi_term n i = pi_term_at (pi_dh n) (int i)"
  by (simp add: pi_term_def pi_x_def pi_term_at_def Let_def)

lemma pi_sum_at_int: "pi_sum n m = pi_sum_at (pi_dh n) int m"
  by (simp add: pi_sum_def pi_sum_at_def pi_term_at_int)

lemma half_le_counter: "1 / 2 \<le> \<bar>real_of_int c - 1 / 2\<bar>"
proof (cases "c \<le> 0")
  case True
  then have "real_of_int c \<le> 0" by simp
  then show ?thesis by simp
next
  case False
  then have "1 \<le> c" by simp
  then have "1 \<le> real_of_int c" by simp
  then show ?thesis by simp
qed

lemma step_bounds_at:
  assumes n: "1 \<le> n" "n \<le> 2 ^ 32" and c: "\<bar>real_of_int c - 1 / 2\<bar> \<le> real n"
  shows "1 / 2 ^ 100 \<le> 1 / real n" "1 / real n \<le> 2 ^ 100"
    and "1 / 2 ^ 100 \<le> \<bar>real_of_int c - 1 / 2\<bar>" "\<bar>real_of_int c - 1 / 2\<bar> \<le> 2 ^ 100"
    and "1 / 2 ^ 33 \<le> 1 / real n * \<bar>real_of_int c - 1 / 2\<bar>"
    and "1 / real n * \<bar>real_of_int c - 1 / 2\<bar> \<le> 1"
proof -
  have rn: "1 \<le> real n" "real n \<le> 2 ^ 32"
    using n by (simp, metis of_nat_le_iff of_nat_numeral of_nat_power)
  have t: "1 / 2 \<le> \<bar>real_of_int c - 1 / 2\<bar>" by (rule half_le_counter)
  note t' = c
  have d: "1 / 2 ^ 32 \<le> 1 / real n" using rn by (intro divide_left_mono) simp_all
  have c1: "(1::real) / 2 ^ 100 \<le> 1 / 2 ^ 32" by simp
  show "1 / 2 ^ 100 \<le> 1 / real n" by (rule order_trans[OF c1 d])
  have "1 / real n \<le> 1" using rn by simp
  then show "1 / real n \<le> 2 ^ 100" by (rule order_trans) simp
  have c2: "(1::real) / 2 ^ 100 \<le> 1 / 2" by simp
  show "1 / 2 ^ 100 \<le> \<bar>real_of_int c - 1 / 2\<bar>" by (rule order_trans[OF c2 t])
  have c3: "real n \<le> 2 ^ 100" by (rule order_trans[OF rn(2)]) simp
  show "\<bar>real_of_int c - 1 / 2\<bar> \<le> 2 ^ 100" by (rule order_trans[OF t' c3])
  have "1 / 2 ^ 32 * (1 / 2) \<le> 1 / real n * \<bar>real_of_int c - 1 / 2\<bar>"
    using d t by (intro mult_mono) simp_all
  moreover have "(1::real) / 2 ^ 33 = 1 / 2 ^ 32 * (1 / 2)" by simp
  ultimately show "1 / 2 ^ 33 \<le> 1 / real n * \<bar>real_of_int c - 1 / 2\<bar>" by (simp only:)
  have "1 / real n * \<bar>real_of_int c - 1 / 2\<bar> \<le> 1 / real n * real n"
    using t' rn by (intro mult_left_mono) simp_all
  also have "\<dots> = 1" using rn by simp
  finally show "1 / real n * \<bar>real_of_int c - 1 / 2\<bar> \<le> 1" .
qed

lemma step_shadow:
  assumes n: "1 \<le> n" "n \<le> 2 ^ 32"
  shows "pi_dh n = Fin (r_dh n)" and "approx 1 (r_dh n) (1 / real n)" and "0 < r_dh n"
proof -
  define h where "h = 1 / real n"
  have c: "\<bar>real_of_int 1 - 1 / 2\<bar> \<le> real n" using n by simp
  note b = step_bounds_at[OF n c, folded h_def]
  have n0: "0 < real n" using n by simp
  have h0: "0 < h" using n0 by (simp add: h_def)
  have d0: "approx 0 h h" using h0 by (rule approx_exact)
  have d: "in_range h" "approx 1 (rnd h) h"
    by (rule approx_in_range[OF d0 _ b(1,2)], simp, rule approx_round[OF d0 _ b(1,2)], simp_all)
  have "ddiv (Fin 1) (Fin (real n)) = Fin (rnd (1 / real n))"
    using n0 d(1) by (intro ddiv_Fin) (simp_all add: h_def)
  then show dh: "pi_dh n = Fin (r_dh n)" by (simp only: pi_dh_def r_dh_def)
  show "approx 1 (r_dh n) (1 / real n)" using d(2) by (simp only: r_dh_def h_def)
  show "0 < r_dh n" unfolding r_dh_def using d(1) h0 by (simp only: h_def[symmetric] rnd_sign)
qed

lemma term_shadow_at:
  assumes n: "1 \<le> n" "n \<le> 2 ^ 32" and c: "\<bar>real_of_int c - 1 / 2\<bar> \<le> real n"
  shows "pi_term_at (pi_dh n) c = Fin (r_term_at n c)"
    and "approx 9 (r_term_at n c) (e_term_at n c)"
    and "0 < r_term_at n c"
proof -
  define t where "t = real_of_int c - 1 / 2"
  define h where "h = 1 / real n"
  define X where "X = h * \<bar>t\<bar>"
  define Q where "Q = X * X"
  note b = step_bounds_at[OF n c, folded t_def h_def, folded X_def]
  have n0: "0 < real n" using n by simp
  have h0: "0 < h" using n0 by (simp add: h_def)
  have dh: "pi_dh n = Fin (r_dh n)" by (rule step_shadow(1)[OF n])
  have d1: "approx 1 (r_dh n) h" unfolding h_def by (rule step_shadow(2)[OF n])
  \<comment> \<open>the sample point\<close>
  have t0: "t \<noteq> 0" using b(3) by auto
  have t: "in_range t" "approx 1 (rnd t) \<bar>t\<bar>"
    by (rule approx_in_range[OF approx_abs[OF t0] _ b(3,4)], simp,
        rule approx_round[OF approx_abs[OF t0] _ b(3,4)], simp_all)
  have "dsub (Fin (real_of_int c)) (Fin (1 / 2)) = Fin (rnd (real_of_int c - 1 / 2))"
    using t(1) by (intro dsub_Fin) (simp_all add: t_def)
  then have ts: "dsub (Fin (real_of_int c)) (Fin (1 / 2)) = Fin (rnd t)" by (simp only: t_def)
  have x0: "approx (1 + 1) (r_dh n * rnd t) X"
    unfolding X_def by (rule approx_mult[OF d1 t(2)])
  have xl: "1 / 2 ^ 100 \<le> X" by (rule order_trans[OF _ b(5)]) simp
  have xh: "X \<le> 2 ^ 100" by (rule order_trans[OF b(6)]) simp
  have x: "in_range (r_dh n * rnd t)" "approx 3 (rnd (r_dh n * rnd t)) X"
    by (rule approx_in_range[OF x0 _ xl xh], simp, rule approx_round[OF x0 _ xl xh], simp_all)
  have rx: "r_x_at n c = rnd (r_dh n * rnd t)" by (simp only: r_x_at_def t_def)
  have xs: "dmul (pi_dh n) (dsub (Fin (real_of_int c)) (Fin (1 / 2))) = Fin (r_x_at n c)"
    unfolding rx dh ts using x(1) by (rule dmul_Fin)
  have x3: "approx 3 (r_x_at n c) X" unfolding rx by (rule x(2))
  \<comment> \<open>its square\<close>
  have q0: "approx (3 + 3) (r_x_at n c * r_x_at n c) Q"
    unfolding Q_def by (rule approx_mult[OF x3 x3])
  have X0: "0 \<le> X" using h0 by (simp add: X_def)
  have "1 / 2 ^ 33 * (1 / 2 ^ 33) \<le> X * X" using b(5) by (intro mult_mono) simp_all
  then have "1 / 2 ^ 33 * (1 / 2 ^ 33) \<le> Q" by (simp only: Q_def)
  then have ql: "1 / 2 ^ 100 \<le> Q" by (rule order_trans[rotated]) simp
  have "X * X \<le> 1 * 1" using b(6) X0 by (intro mult_mono) simp_all
  then have qh1: "Q \<le> 1" by (simp only: mult_1 Q_def)
  have qh: "Q \<le> 2 ^ 100" by (rule order_trans[OF qh1]) simp
  have qp: "0 < Q" using ql by (rule less_le_trans[rotated]) simp
  define sq where "sq = rnd (r_x_at n c * r_x_at n c)"
  have q: "in_range (r_x_at n c * r_x_at n c)" "approx 7 sq Q"
    unfolding sq_def
    by (rule approx_in_range[OF q0 _ ql qh], simp, rule approx_round[OF q0 _ ql qh], simp_all)
  have xx: "dmul (Fin (r_x_at n c)) (Fin (r_x_at n c)) = Fin sq"
    unfolding sq_def using q(1) by (rule dmul_Fin)
  have rx0: "r_x_at n c \<noteq> 0" using x3 by (rule approx_nonzero)
  then have "0 < (r_x_at n c)\<^sup>2" by simp
  then have "0 < r_x_at n c * r_x_at n c" by (simp only: power2_eq_square)
  then have sq0: "0 < sq" unfolding sq_def using q(1) by (intro rnd_sign)
  \<comment> \<open>the denominator\<close>
  have one: "approx 7 1 1" by (rule approx_mono[OF approx_exact]) simp_all
  have p0: "approx 7 (1 + sq) (1 + Q)"
    using one q(2) _ sq0 by (rule approx_add) simp
  have pl: "1 / 2 ^ 100 \<le> 1 + Q" using qp by simp
  have ph: "1 + Q \<le> 2 ^ 100" using qh1 by simp
  define den where "den = rnd (1 + sq)"
  have p: "in_range (1 + sq)" "approx 8 den (1 + Q)"
    unfolding den_def
    by (rule approx_in_range[OF p0 _ pl ph], simp, rule approx_round[OF p0 _ pl ph], simp_all)
  have dn: "dadd (Fin 1) (Fin sq) = Fin den"
    unfolding den_def using p(1) by (rule dadd_Fin)
  have "0 < 1 + sq" using sq0 by simp
  then have den0: "0 < den" unfolding den_def using p(1) by (intro rnd_sign)
  \<comment> \<open>the term\<close>
  have four: "approx 0 4 4" by (intro approx_exact) simp
  have f0: "approx (0 + 8) (4 / den) (4 / (1 + Q))" by (rule approx_div[OF four p(2)])
  have "2 \<le> 4 / (1 + Q)" using qh1 qp by (simp add: field_simps)
  then have fl: "1 / 2 ^ 100 \<le> 4 / (1 + Q)" by (rule order_trans[rotated]) simp
  have "4 / (1 + Q) \<le> 4" using qp by (simp add: field_simps)
  then have fh: "4 / (1 + Q) \<le> 2 ^ 100" by (rule order_trans) simp
  have f: "in_range (4 / den)" "approx 9 (rnd (4 / den)) (4 / (1 + Q))"
    by (rule approx_in_range[OF f0 _ fl fh], simp, rule approx_round[OF f0 _ fl fh], simp_all)
  have den_nz: "den \<noteq> 0" using den0 by simp
  have rt: "r_term_at n c = rnd (4 / den)" by (simp only: r_term_at_def den_def sq_def)
  have "ddiv (Fin 4) (Fin den) = Fin (rnd (4 / den))"
    using den_nz f(1) by (rule ddiv_Fin)
  then show "pi_term_at (pi_dh n) c = Fin (r_term_at n c)"
    unfolding pi_term_at_def Let_def by (simp only: xs xx dn rt)
  have "X = \<bar>t / real n\<bar>" using n0 by (simp add: X_def h_def)
  then have "Q = (t / real n)\<^sup>2" by (simp add: Q_def power2_eq_square)
  then have e: "e_term_at n c = 4 / (1 + Q)" by (simp only: e_term_at_def t_def)
  show "approx 9 (r_term_at n c) (e_term_at n c)"
    unfolding rt e by (rule f(2))
  have "0 < 4 / den" using den0 by simp
  then show "0 < r_term_at n c" unfolding rt using f(1) by (intro rnd_sign)
qed

lemma e_term_at_bounds:
  assumes "0 < n" "\<bar>real_of_int c - 1 / 2\<bar> \<le> real n"
  shows "2 \<le> e_term_at n c" and "e_term_at n c \<le> 4"
proof -
  define q where "q = ((real_of_int c - 1 / 2) / real n)\<^sup>2"
  have n0: "0 < real n" using assms by simp
  have "\<bar>(real_of_int c - 1 / 2) / real n\<bar> \<le> 1" using n0 assms(2) by (simp add: field_simps)
  then have q1: "q \<le> 1" unfolding q_def by (simp add: abs_square_le_1)
  have q0: "0 \<le> q" unfolding q_def by simp
  have e: "e_term_at n c = 4 / (1 + q)" by (simp only: e_term_at_def q_def)
  show "2 \<le> e_term_at n c" unfolding e using q0 q1 by (simp add: field_simps)
  show "e_term_at n c \<le> 4" unfolding e using q0 by (simp add: field_simps)
qed

lemma ulo_pow_most:
  assumes "k \<le> 2 ^ 40"
  shows "1 / 2 \<le> ulo ^ k"
proof -
  have "real k \<le> 2 ^ 40" using assms by (metis of_nat_le_iff of_nat_numeral of_nat_power)
  then have "real k / 2 ^ 53 \<le> 2 ^ 40 / 2 ^ 53" by (intro divide_right_mono) simp_all
  then show ?thesis using ulo_pow_lower[of k] by simp
qed

lemma rnd_ulo:
  assumes "in_range r" "0 < r"
  shows "r * ulo \<le> rnd r" and "rnd r * ulo \<le> r"
proof -
  have p: "0 < rnd r" using assms by (rule rnd_sign)
  have "approx 0 r r" using assms(2) by (rule approx_exact)
  then have "approx (Suc 0) (rnd r) r" using assms(1) by (rule approx_rnd)
  then show "r * ulo \<le> rnd r" and "rnd r * ulo \<le> r"
    using p by (simp_all add: approx_def)
qed

lemma sum_shadow_at:
  assumes n: "1 \<le> n" "n \<le> 2 ^ 32" and k: "k \<le> n"
    and cf: "\<forall>j<n. \<bar>real_of_int (cf j) - 1 / 2\<bar> \<le> real n"
  shows "pi_sum_at (pi_dh n) cf k = Fin (r_sum_at n cf k) \<and> 0 \<le> r_sum_at n cf k
     \<and> r_sum_at n cf k \<le> 16 * real k
     \<and> ulo ^ (9 + k) * (\<Sum>i<k. e_term_at n (cf i)) \<le> r_sum_at n cf k
     \<and> r_sum_at n cf k * ulo ^ (9 + k) \<le> (\<Sum>i<k. e_term_at n (cf i))"
  using k
proof (induction k)
  case 0
  show ?case by (simp add: pi_sum_at_def)
next
  case (Suc k)
  then have kn: "k < n" and IH: "pi_sum_at (pi_dh n) cf k = Fin (r_sum_at n cf k)" "0 \<le> r_sum_at n cf k"
    "r_sum_at n cf k \<le> 16 * real k" "ulo ^ (9 + k) * (\<Sum>i<k. e_term_at n (cf i)) \<le> r_sum_at n cf k"
    "r_sum_at n cf k * ulo ^ (9 + k) \<le> (\<Sum>i<k. e_term_at n (cf i))"
    by simp_all
  define a where "a = r_sum_at n cf k"
  define tm where "tm = r_term_at n (cf k)"
  define E where "E = (\<Sum>i<k. e_term_at n (cf i))"
  define e where "e = e_term_at n (cf k)"
  define U where "U = ulo ^ (9 + k)"
  have n0: "0 < n" using n by simp
  note ck = cf[rule_format, OF kn]
  note ts = term_shadow_at[OF n ck, folded tm_def e_def]
  note eb = e_term_at_bounds[OF n0 ck, folded e_def]
  have a0: "0 \<le> a" and ah: "a \<le> 16 * real k" and al: "U * E \<le> a" and au: "a * U \<le> E"
    using IH by (simp_all add: a_def E_def U_def)
  have U0: "0 < U" "U \<le> 1" unfolding U_def by (rule ulo_pow)+
  have t0: "0 < tm" by (rule ts(3))
  have e0: "0 < e" using eb(1) by simp
  have h9: "1 / 2 \<le> ulo ^ 9" by (rule ulo_pow_most) simp
  have tl: "e * ulo ^ 9 \<le> tm" and th: "tm * ulo ^ 9 \<le> e"
    using ts(2) t0 by (simp_all add: approx_def)
  have "tm * (1 / 2) \<le> tm * ulo ^ 9" using h9 t0 by (intro mult_left_mono) simp_all
  then have t8: "tm \<le> 8" using th eb(2) by simp
  have "2 * (1 / 2) \<le> e * ulo ^ 9" using eb(1) h9 by (intro mult_mono) simp_all
  then have t1: "1 \<le> tm" using tl by simp
  have rk: "real k \<le> 2 ^ 32"
    using kn n(2) by (metis less_imp_le order_trans of_nat_le_iff of_nat_numeral of_nat_power)
  have s1: "1 \<le> a + tm" using a0 t1 by simp
  have sh: "a + tm \<le> 16 * real k + 8" using ah t8 by simp
  have rng: "in_range (a + tm)"
  proof -
    have "(2::real) powi (- 1022) \<le> 1"
      by (simp add: power_int_minus inverse_eq_divide)
    then have "2 powi (- 1022) \<le> \<bar>a + tm\<bar>" using s1 by simp
    moreover have "a + tm \<le> 16 * 2 ^ 32 + 8" using sh rk by simp
    then have "\<bar>a + tm\<bar> \<le> 2 ^ 1000" using s1 by simp
    ultimately show ?thesis by (simp add: in_range_def)
  qed
  have sp: "0 < a + tm" using s1 by simp
  note ru = rnd_ulo[OF rng sp]
  have rs: "r_sum_at n cf (Suc k) = rnd (a + tm)" by (simp add: a_def tm_def)
  have "[0..<Suc k] = [0..<k] @ [k]" by simp
  then have "pi_sum_at (pi_dh n) cf (Suc k) = dadd (pi_sum_at (pi_dh n) cf k) (pi_term_at (pi_dh n) (cf k))"
    unfolding pi_sum_at_def by (simp only: foldl_append foldl.simps)
  also have "\<dots> = dadd (Fin a) (Fin tm)" by (simp only: IH(1) ts(1) a_def)
  also have "\<dots> = Fin (rnd (a + tm))" using rng by (rule dadd_Fin)
  finally have 1: "pi_sum_at (pi_dh n) cf (Suc k) = Fin (r_sum_at n cf (Suc k))" by (simp only: rs)
  have pos: "0 < rnd (a + tm)" using rng sp by (rule rnd_sign)
  have 2: "0 \<le> r_sum_at n cf (Suc k)" unfolding rs using pos by simp
  have "rnd (a + tm) \<le> (a + tm) * (1 + 1 / 2 ^ 53)"
    using rnd_bounds(2)[OF rng] pos s1 by simp
  also have "\<dots> \<le> (16 * real k + 8) * (1 + 1 / 2 ^ 53)"
    using sh by (intro mult_right_mono) simp_all
  also have "\<dots> \<le> 16 * real k + 16" using rk by (simp add: algebra_simps)
  finally have 3: "r_sum_at n cf (Suc k) \<le> 16 * real (Suc k)" unfolding rs by simp
  have Up: "ulo ^ (9 + Suc k) = U * ulo"
    unfolding U_def by (simp only: add_Suc_right power_Suc2)
  have U9: "U \<le> ulo ^ 9" unfolding U_def by (rule ulo_pow_mono) simp
  have sm: "(\<Sum>i<Suc k. e_term_at n (cf i)) = E + e" by (simp add: E_def e_def)
  have "U * e \<le> ulo ^ 9 * e" using U9 e0 by (intro mult_right_mono) simp_all
  then have "U * (E + e) \<le> a + tm" using al tl by (simp add: algebra_simps)
  then have "U * (E + e) * ulo \<le> (a + tm) * ulo"
    using ulo_bounds(1) by (intro mult_right_mono) simp_all
  also have "\<dots> \<le> rnd (a + tm)" by (rule ru(1))
  finally have "U * (E + e) * ulo \<le> rnd (a + tm)" .
  then have 4: "ulo ^ (9 + Suc k) * (\<Sum>i<Suc k. e_term_at n (cf i)) \<le> r_sum_at n cf (Suc k)"
    unfolding rs Up sm by (simp only: mult.assoc mult.commute[of ulo])
  have "tm * U \<le> tm * ulo ^ 9" using U9 t0 by (intro mult_left_mono) simp_all
  then have "(a + tm) * U \<le> E + e" using au th by (simp add: algebra_simps)
  moreover have "rnd (a + tm) * ulo * U \<le> (a + tm) * U"
    using ru(2) U0(1) by (intro mult_right_mono) simp_all
  ultimately have "rnd (a + tm) * ulo * U \<le> E + e" by (rule order_trans[rotated])
  then have 5: "r_sum_at n cf (Suc k) * ulo ^ (9 + Suc k) \<le> (\<Sum>i<Suc k. e_term_at n (cf i))"
    unfolding rs Up sm by (simp only: mult.assoc mult.commute[of ulo])
  show ?case using 1 2 3 4 5 by (simp only: simp_thms)
qed

lemma pi_shadow_at:
  assumes n: "1 \<le> n" "n \<le> 2 ^ 32"
    and cf: "\<forall>j<n. \<bar>real_of_int (cf j) - 1 / 2\<bar> \<le> real n"
  shows "dmul (pi_sum_at (pi_dh n) cf n) (pi_dh n) = Fin (r_pi_at n cf)"
    and "ulo ^ (11 + n) * ((\<Sum>i<n. e_term_at n (cf i)) / real n) \<le> r_pi_at n cf"
    and "r_pi_at n cf * ulo ^ (11 + n) \<le> (\<Sum>i<n. e_term_at n (cf i)) / real n"
proof -
  define a where "a = r_sum_at n cf n"
  define h where "h = r_dh n"
  define E where "E = (\<Sum>i<n. e_term_at n (cf i))"
  define d where "d = 1 / real n"
  define U where "U = ulo ^ (9 + n)"
  have n0: "0 < n" using n by simp
  have rn: "1 \<le> real n" "real n \<le> 2 ^ 32"
    using n by (simp, metis of_nat_le_iff of_nat_numeral of_nat_power)
  have d0: "0 < d" using rn by (simp add: d_def)
  have U0: "0 < U" "U \<le> 1" unfolding U_def by (rule ulo_pow)+
  note ss = sum_shadow_at[OF n order_refl cf, folded a_def E_def, folded U_def]
  have sa: "pi_sum_at (pi_dh n) cf n = Fin a" and ah: "a \<le> 16 * real n" and al: "U * E \<le> a"
    and au: "a * U \<le> E"
    using ss by simp_all
  have sh: "pi_dh n = Fin h" unfolding h_def by (rule step_shadow(1)[OF n])
  have hp: "0 < h" unfolding h_def by (rule step_shadow(3)[OF n])
  have "approx 1 h d" unfolding h_def d_def by (rule step_shadow(2)[OF n])
  then have hl: "d * ulo \<le> h" and hh: "h * ulo \<le> d" using hp by (simp_all add: approx_def)
  have "real (card {..<n}) * 2 \<le> E"
    unfolding E_def by (rule sum_bounded_below) (use cf in \<open>simp add: e_term_at_bounds(1)[OF n0]\<close>)
  then have E2: "2 * real n \<le> E" by simp
  have E0: "0 < E" using E2 rn by simp
  have hn: "1 / 2 \<le> U" unfolding U_def using n(2) by (intro ulo_pow_most) simp
  have "2 * real n * (1 / 2) \<le> E * U"
    using E2 hn rn by (intro mult_mono) simp_all
  then have an: "real n \<le> a" using al by (simp add: mult.commute)
  have a0: "0 < a" using an rn by simp
  have u2: "1 / 2 \<le> ulo" using ulo_pow_most[of 1] by simp
  have "real n * (d * (1 / 2)) \<le> a * (d * ulo)"
    using an u2 d0 rn by (intro mult_mono) simp_all
  also have "\<dots> \<le> a * h" using hl a0 by (intro mult_left_mono) simp_all
  finally have pl: "1 / 2 \<le> a * h" using rn by (simp add: d_def)
  have "h * (1 / 2) \<le> h * ulo" using u2 hp by (intro mult_left_mono) simp_all
  then have h2: "h \<le> 2 * d" using hh by simp
  have "a * h \<le> (16 * real n) * (2 * d)" using ah h2 a0 hp by (intro mult_mono) simp_all
  also have "\<dots> = 32" using rn by (simp add: d_def)
  finally have ph: "a * h \<le> 32" .
  have rng: "in_range (a * h)"
  proof -
    have "(2::real) powi (- 1022) \<le> 1 / 2"
      by (simp add: power_int_minus inverse_eq_divide)
    then have "2 powi (- 1022) \<le> \<bar>a * h\<bar>" using pl by simp
    moreover have "\<bar>a * h\<bar> \<le> 2 ^ 1000" using ph pl by simp
    ultimately show ?thesis by (simp add: in_range_def)
  qed
  have ap: "0 < a * h" using pl by simp
  note ru = rnd_ulo[OF rng ap]
  have rp: "r_pi_at n cf = rnd (a * h)" by (simp only: r_pi_at_def a_def h_def)
  show "dmul (pi_sum_at (pi_dh n) cf n) (pi_dh n) = Fin (r_pi_at n cf)"
    by (subst sa, subst sh, subst rp, rule dmul_Fin[OF rng])
  have Up: "ulo ^ (11 + n) = U * ulo * ulo"
    by (simp add: U_def power_add power2_eq_square eval_nat_numeral)
  have Ed: "E / real n = E * d" by (simp add: d_def)
  have "U * E * (d * ulo) \<le> a * h"
    using al hl d0 ulo_bounds(1) a0 U0(1) E0 by (intro mult_mono) (simp_all add: less_imp_le)
  then have "U * E * (d * ulo) * ulo \<le> a * h * ulo"
    using ulo_bounds(1) by (intro mult_right_mono) simp_all
  also have "\<dots> \<le> rnd (a * h)" by (rule ru(1))
  finally have "U * E * (d * ulo) * ulo \<le> rnd (a * h)" .
  moreover have "U * ulo * ulo * (E * d) = U * E * (d * ulo) * ulo" by simp
  ultimately show "ulo ^ (11 + n) * ((\<Sum>i<n. e_term_at n (cf i)) / real n) \<le> r_pi_at n cf"
    unfolding rp E_def[symmetric] Up Ed by (simp only:)
  have "(a * U) * (h * ulo) \<le> E * d"
    using au hh a0 hp U0(1) ulo_bounds(1) E0 by (intro mult_mono) (simp_all add: less_imp_le)
  moreover have "rnd (a * h) * ulo * (U * ulo) \<le> a * h * (U * ulo)"
    using ru(2) U0(1) ulo_bounds(1) by (intro mult_right_mono) (simp_all add: less_imp_le)
  moreover have "a * h * (U * ulo) = (a * U) * (h * ulo)" by simp
  moreover have "rnd (a * h) * (U * ulo * ulo) = rnd (a * h) * ulo * (U * ulo)" by simp
  ultimately show "r_pi_at n cf * ulo ^ (11 + n) \<le> (\<Sum>i<n. e_term_at n (cf i)) / real n"
    unfolding rp E_def[symmetric] Up Ed by (simp only:)
qed

lemma arctan_increment_lower:
  assumes "0 \<le> x" "0 \<le> d"
  shows "d / (1 + (x + d)\<^sup>2) \<le> arctan (x + d) - arctan x"
proof -
  let ?g = "\<lambda>t. arctan t - t / (1 + (x + d)\<^sup>2)"
  have pos: "0 < 1 + (x + d)\<^sup>2" by (simp add: add_pos_nonneg)
  then have nz: "1 + (x + d)\<^sup>2 \<noteq> 0" by simp
  have "?g x \<le> ?g (x + d)"
  proof (rule DERIV_nonneg_imp_nondecreasing[of x "x + d" ?g])
    show "x \<le> x + d" using assms by simp
    fix t assume t: "x \<le> t" "t \<le> x + d"
    have "DERIV ?g t :> inverse (1 + t\<^sup>2) - 1 / (1 + (x + d)\<^sup>2)"
      using nz by (auto intro!: derivative_eq_intros)
    moreover have "1 / (1 + (x + d)\<^sup>2) \<le> inverse (1 + t\<^sup>2)"
    proof -
      have "0 \<le> t" using assms(1) t(1) by simp
      then have "t\<^sup>2 \<le> (x + d)\<^sup>2" using t(2) by (simp add: power_mono)
      then have "1 / (1 + (x + d)\<^sup>2) \<le> 1 / (1 + t\<^sup>2)"
        by (intro divide_left_mono) (auto simp: add_pos_nonneg)
      then show ?thesis by (simp add: inverse_eq_divide)
    qed
    ultimately show "\<exists>y. DERIV ?g t :> y \<and> 0 \<le> y"
      by (intro exI[of _ "inverse (1 + t\<^sup>2) - 1 / (1 + (x + d)\<^sup>2)"]) simp
  qed
  then have "(x + d) / (1 + (x + d)\<^sup>2) - x / (1 + (x + d)\<^sup>2) \<le> arctan (x + d) - arctan x"
    by simp
  moreover have "(x + d) / (1 + (x + d)\<^sup>2) - x / (1 + (x + d)\<^sup>2) = d / (1 + (x + d)\<^sup>2)"
    by (simp add: diff_divide_distrib[symmetric])
  ultimately show ?thesis by simp
qed

lemma arctan_one_half: "pi / 4 + 2 / 15 \<le> 2 * arctan (1 / 2)"
proof -
  have "arctan (1 / 2) + arctan (1 / 3) = arctan ((1 / 2 + 1 / 3) / (1 - 1 / 2 * (1 / 3)))"
    by (rule arctan_add) simp_all
  also have "\<dots> = arctan 1" by simp
  finally have s: "arctan (1 / 2) + arctan (1 / 3) = pi / 4" by (simp only: arctan_one)
  have "(1 / 6) / (1 + (1 / 3 + 1 / 6)\<^sup>2) \<le> arctan (1 / 3 + 1 / 6) - arctan (1 / 3)"
    by (rule arctan_increment_lower) simp_all
  moreover have "(1 / 3 + 1 / 6 :: real) = 1 / 2" by simp
  moreover have "(1 / 6) / (1 + (1 / 2)\<^sup>2) = (2 / 15 :: real)" by (simp add: power2_eq_square)
  ultimately have "2 / 15 \<le> arctan (1 / 2) - arctan (1 / 3)" by (simp only:)
  with s show ?thesis by linarith
qed

text \<open>Partial sums of the exact terms between arctangents.\<close>

lemma e_term_at_sum_lower:
  assumes n: "0 < n" and m: "1 \<le> m" "m \<le> p"
  shows "4 * (arctan ((real p - 1 / 2) / real n) - arctan ((real m - 1 / 2) / real n))
           \<le> (\<Sum>i = m..<p. e_term_at n (int i)) / real n"
proof -
  define g where "g i = arctan ((real i - 1 / 2) / real n)" for i :: nat
  have n0: "0 < real n" using n by simp
  have step: "4 * g (Suc i) - 4 * g i \<le> e_term_at n (int i) / real n" if "1 \<le> i" for i
  proof -
    define x where "x = (real i - 1 / 2) / real n"
    have x0: "0 \<le> x" using that n0 by (simp add: x_def)
    have "arctan (x + 1 / real n) - arctan x \<le> (1 / real n) / (1 + x\<^sup>2)"
      using x0 by (rule arctan_increment) simp
    moreover have "(real (Suc i) - 1 / 2) / real n = x + 1 / real n"
      by (simp add: x_def add_divide_distrib diff_divide_distrib)
    ultimately have "g (Suc i) - g i \<le> (1 / real n) / (1 + x\<^sup>2)"
      by (simp only: g_def x_def)
    then have "4 * (g (Suc i) - g i) \<le> 4 * ((1 / real n) / (1 + x\<^sup>2))"
      by (intro mult_left_mono) simp_all
    also have "\<dots> = 4 / (1 + x\<^sup>2) / real n" by simp
    also have "\<dots> = e_term_at n (int i) / real n" by (simp only: e_term_at_def x_def of_int_of_nat_eq)
    finally show ?thesis by (simp only: right_diff_distrib)
  qed
  have "4 * (g p - g m) = 4 * g p - 4 * g m" by simp
  also have "\<dots> = (\<Sum>i = m..<p. 4 * g (Suc i) - 4 * g i)"
    by (rule sum_Suc_diff'[of m p "\<lambda>i. 4 * g i", symmetric]) (rule m(2))
  also have "\<dots> \<le> (\<Sum>i = m..<p. e_term_at n (int i) / real n)"
  proof (rule sum_mono)
    fix i :: nat assume "i \<in> {m..<p}"
    then have "1 \<le> i" using m(1) by simp
    then show "4 * g (Suc i) - 4 * g i \<le> e_term_at n (int i) / real n" by (rule step)
  qed
  also have "\<dots> = (\<Sum>i = m..<p. e_term_at n (int i)) / real n"
    by (rule sum_divide_distrib[symmetric])
  finally show ?thesis by (simp only: g_def)
qed

lemma e_term_at_sum_upper:
  assumes n: "0 < n" and m: "2 \<le> m" "m \<le> p"
  shows "(\<Sum>i = m..<p. e_term_at n (int i)) / real n
           \<le> 4 * (arctan ((real p - 3 / 2) / real n) - arctan ((real m - 3 / 2) / real n))"
proof -
  define g where "g i = arctan ((real i - 3 / 2) / real n)" for i :: nat
  have n0: "0 < real n" using n by simp
  have step: "e_term_at n (int i) / real n \<le> 4 * g (Suc i) - 4 * g i" if "2 \<le> i" for i
  proof -
    define x where "x = (real i - 3 / 2) / real n"
    have "0 \<le> real i - 3 / 2" using that by simp
    then have x0: "0 \<le> x" using n0 by (simp add: x_def)
    have "(1 / real n) / (1 + (x + 1 / real n)\<^sup>2) \<le> arctan (x + 1 / real n) - arctan x"
      using x0 by (rule arctan_increment_lower) simp
    moreover have e1: "(real (Suc i) - 3 / 2) / real n = x + 1 / real n"
      by (simp add: x_def add_divide_distrib diff_divide_distrib)
    moreover have e2: "(real i - 1 / 2) / real n = x + 1 / real n"
      using n0 by (simp add: x_def add_divide_distrib diff_divide_distrib)
    ultimately have "(1 / real n) / (1 + ((real i - 1 / 2) / real n)\<^sup>2) \<le> g (Suc i) - g i"
      by (simp only: g_def x_def)
    then have "4 * ((1 / real n) / (1 + ((real i - 1 / 2) / real n)\<^sup>2)) \<le> 4 * (g (Suc i) - g i)"
      by (intro mult_left_mono) simp_all
    moreover have "4 * ((1 / real n) / (1 + ((real i - 1 / 2) / real n)\<^sup>2))
        = 4 / (1 + ((real i - 1 / 2) / real n)\<^sup>2) / real n" by simp
    moreover have "\<dots> = e_term_at n (int i) / real n" by (simp only: e_term_at_def of_int_of_nat_eq)
    ultimately show ?thesis by (simp only: right_diff_distrib)
  qed
  have "(\<Sum>i = m..<p. e_term_at n (int i)) / real n = (\<Sum>i = m..<p. e_term_at n (int i) / real n)"
    by (rule sum_divide_distrib)
  also have "\<dots> \<le> (\<Sum>i = m..<p. 4 * g (Suc i) - 4 * g i)"
  proof (rule sum_mono)
    fix i :: nat assume "i \<in> {m..<p}"
    then have "2 \<le> i" using m(1) by simp
    then show "e_term_at n (int i) / real n \<le> 4 * g (Suc i) - 4 * g i" by (rule step)
  qed
  also have "\<dots> = 4 * g p - 4 * g m"
    by (rule sum_Suc_diff'[of m p "\<lambda>i. 4 * g i"]) (rule m(2))
  also have "\<dots> = 4 * (g p - g m)" by simp
  finally show ?thesis by (simp only: g_def)
qed

lemma e_term_at_range: "0 \<le> e_term_at n c" "e_term_at n c \<le> 4"
proof -
  define q where "q = ((real_of_int c - 1 / 2) / real n)\<^sup>2"
  have q0: "0 \<le> q" unfolding q_def by simp
  have e: "e_term_at n c = 4 / (1 + q)" by (simp only: e_term_at_def q_def)
  show "0 \<le> e_term_at n c" unfolding e using q0 by simp
  show "e_term_at n c \<le> 4" unfolding e using q0 by (simp add: field_simps)
qed

lemma e_term_at_sum_desc:
  assumes n: "0 < n" and m: "m \<le> p" "p \<le> W"
  shows "4 * (arctan ((real W + 3 / 2 - real m) / real n)
              - arctan ((real W + 3 / 2 - real p) / real n))
           \<le> (\<Sum>k = m..<p. e_term_at n (int k - int W)) / real n"
proof -
  define g where "g k = - arctan ((real W + 3 / 2 - real k) / real n)" for k :: nat
  have n0: "0 < real n" using n by simp
  have step: "4 * g (Suc k) - 4 * g k \<le> e_term_at n (int k - int W) / real n" if "k < p" for k
  proof -
    define x where "x = (real W + 1 / 2 - real k) / real n"
    have "real k \<le> real W" using that m(2) by simp
    then have "0 \<le> real W + 1 / 2 - real k" by simp
    then have x0: "0 \<le> x" using n0 by (simp add: x_def)
    have "arctan (x + 1 / real n) - arctan x \<le> (1 / real n) / (1 + x\<^sup>2)"
      using x0 by (rule arctan_increment) simp
    moreover have "(real W + 3 / 2 - real k) / real n = x + 1 / real n"
      by (simp add: x_def add_divide_distrib diff_divide_distrib)
    moreover have "(real W + 3 / 2 - real (Suc k)) / real n = x"
      by (simp add: x_def add_divide_distrib diff_divide_distrib)
    ultimately have "g (Suc k) - g k \<le> (1 / real n) / (1 + x\<^sup>2)"
      by (simp only: g_def)
    then have "4 * (g (Suc k) - g k) \<le> 4 * ((1 / real n) / (1 + x\<^sup>2))"
      by (intro mult_left_mono) simp_all
    also have "\<dots> = 4 / (1 + x\<^sup>2) / real n" by simp
    also have "\<dots> = 4 / (1 + (- x)\<^sup>2) / real n" by simp
    finally have le: "4 * (g (Suc k) - g k) \<le> 4 / (1 + (- x)\<^sup>2) / real n" .
    have "real_of_int (int k - int W) - 1 / 2 = - (real W + 1 / 2 - real k)" by simp
    then have "(real_of_int (int k - int W) - 1 / 2) / real n = - x"
      by (simp only: x_def minus_divide_left)
    with le have "4 * (g (Suc k) - g k) \<le> e_term_at n (int k - int W) / real n"
      by (simp only: e_term_at_def)
    then show ?thesis by (simp only: right_diff_distrib)
  qed
  have "4 * (g p - g m) = 4 * g p - 4 * g m" by simp
  also have "\<dots> = (\<Sum>k = m..<p. 4 * g (Suc k) - 4 * g k)"
    by (rule sum_Suc_diff'[of m p "\<lambda>k. 4 * g k", symmetric]) (rule m(1))
  also have "\<dots> \<le> (\<Sum>k = m..<p. e_term_at n (int k - int W) / real n)"
  proof (rule sum_mono)
    fix k :: nat assume "k \<in> {m..<p}"
    then have "k < p" by simp
    then show "4 * g (Suc k) - 4 * g k \<le> e_term_at n (int k - int W) / real n" by (rule step)
  qed
  also have "\<dots> = (\<Sum>k = m..<p. e_term_at n (int k - int W)) / real n"
    by (rule sum_divide_distrib[symmetric])
  finally have "4 * (g p - g m) \<le> (\<Sum>k = m..<p. e_term_at n (int k - int W)) / real n" .
  moreover have "g p - g m = arctan ((real W + 3 / 2 - real m) / real n)
      - arctan ((real W + 3 / 2 - real p) / real n)"
    by (simp add: g_def)
  ultimately show ?thesis by (simp only:)
qed

lemma formula_sum_upper:
  assumes "2 \<le> n"
  shows "(\<Sum>i<n. e_term_at n (int i)) / real n \<le> pi + 8 / real n"
proof -
  define f where "f i = e_term_at n (int i)" for i :: nat
  have n0: "0 < n" and n1: "Suc 0 < n" using assms by simp_all
  have rn: "0 < real n" using n0 by simp
  have "(\<Sum>i<n. f i) = (\<Sum>i = 0..<n. f i)" by (simp only: lessThan_atLeast0)
  also have "\<dots> = f 0 + (\<Sum>i = Suc 0..<n. f i)"
    by (rule sum.atLeast_Suc_lessThan) (rule n0)
  also have "(\<Sum>i = Suc 0..<n. f i) = f (Suc 0) + (\<Sum>i = Suc (Suc 0)..<n. f i)"
    by (rule sum.atLeast_Suc_lessThan) (rule n1)
  finally have split: "(\<Sum>i<n. f i) = f 0 + (f (Suc 0) + (\<Sum>i = Suc (Suc 0)..<n. f i))" .
  have two: "Suc (Suc 0) = 2" by simp
  define A where "A = arctan ((real n - 3 / 2) / real n)"
  define B where "B = arctan ((real 2 - 3 / 2) / real n)"
  define T where "T = (\<Sum>i = 2..<n. f i) / real n"
  have tail: "T \<le> 4 * (A - B)"
    unfolding f_def T_def A_def B_def using n0 _ assms by (rule e_term_at_sum_upper) simp
  have "(real n - 3 / 2) / real n \<le> 1" using rn by simp
  then have "A \<le> arctan 1" unfolding A_def by (rule arctan_monotone')
  then have a1: "A \<le> pi / 4" by (simp only: arctan_one)
  have "0 \<le> (real 2 - 3 / 2) / real n" using rn by simp
  then have a2: "0 \<le> B" unfolding B_def by (simp only: zero_le_arctan_iff)
  have "T \<le> pi" using tail a1 a2 by argo
  then have t: "(\<Sum>i = 2..<n. f i) / real n \<le> pi" by (simp only: T_def)
  have f0: "f 0 / real n \<le> 4 / real n" "f (Suc 0) / real n \<le> 4 / real n"
    unfolding f_def using rn by (simp_all add: divide_right_mono e_term_at_range(2))
  have "(\<Sum>i<n. f i) / real n
      = f 0 / real n + (f (Suc 0) / real n + (\<Sum>i = 2..<n. f i) / real n)"
    unfolding split two by (simp only: add_divide_distrib)
  also have "\<dots> \<le> 4 / real n + (4 / real n + pi)"
    using f0 t by (intro add_mono)
  finally show ?thesis by (simp add: f_def)
qed

lemma counter_in_range:
  assumes "j < 4294967295"
  shows "\<bar>real_of_int (counter j) - 1 / 2\<bar> \<le> real 4294967295"
proof (cases "j < 2147483648")
  case True
  then have "counter j = int j" by (rule counter_low)
  moreover have "real j \<le> 4294967295" using assms by simp
  ultimately show ?thesis by simp
next
  case False
  then have j: "2147483648 \<le> j" "j < 4294967296" using assms by simp_all
  then have c: "counter j = int j - 4294967296" by (rule counter_high)
  have "2147483648 \<le> real j" "real j < 4294967296" using j by simp_all
  then show ?thesis unfolding c by simp
qed

lemma wrapped_sum_lower:
  "pi + 8 / 15 - 12 / 4294967295
     \<le> (\<Sum>k<4294967295. e_term_at 4294967295 (counter k)) / 4294967295"
proof -
  define N :: nat where "N = 4294967295"
  define M :: nat where "M = 2147483648"
  define W :: nat where "W = 4294967296"
  define f where "f k = e_term_at N (counter k)" for k
  have N0: "0 < N" and MN: "M \<le> N" and NW: "N \<le> W" and M1: "0 < M" "Suc 0 \<le> M"
    by (simp_all add: N_def M_def W_def)
  have rN: "real N = 4294967295" and rM: "real M = 2147483648" and rW: "real W = 4294967296"
    by (simp_all add: N_def M_def W_def)
  have "(\<Sum>k<N. f k) = (\<Sum>k = 0..<N. f k)" by (simp only: lessThan_atLeast0)
  also have "\<dots> = (\<Sum>k = 0..<M. f k) + (\<Sum>k = M..<N. f k)"
    by (rule sum.atLeastLessThan_concat[symmetric]) (simp_all add: MN)
  also have "(\<Sum>k = 0..<M. f k) = f 0 + (\<Sum>k = Suc 0..<M. f k)"
    by (rule sum.atLeast_Suc_lessThan) (rule M1)
  finally have split: "(\<Sum>k<N. f k) = f 0 + (\<Sum>k = Suc 0..<M. f k) + (\<Sum>k = M..<N. f k)" .
  have low: "(\<Sum>k = Suc 0..<M. f k) = (\<Sum>k = Suc 0..<M. e_term_at N (int k))"
  proof (rule sum.cong[OF refl])
    fix k assume "k \<in> {Suc 0..<M}"
    then have "k < 2147483648" by (simp add: M_def)
    then show "f k = e_term_at N (int k)" by (simp only: f_def counter_low)
  qed
  have high: "(\<Sum>k = M..<N. f k) = (\<Sum>k = M..<N. e_term_at N (int k - int W))"
  proof (rule sum.cong[OF refl])
    fix k assume "k \<in> {M..<N}"
    then have "2147483648 \<le> k" "k < 4294967296" by (simp_all add: M_def N_def)
    then have "counter k = int k - 4294967296" by (rule counter_high)
    moreover have "int W = 4294967296" by (simp add: W_def)
    ultimately show "f k = e_term_at N (int k - int W)" by (simp only: f_def)
  qed
  have A: "4 * (arctan ((real M - 1 / 2) / real N) - arctan ((real (Suc 0) - 1 / 2) / real N))
      \<le> (\<Sum>k = Suc 0..<M. e_term_at N (int k)) / real N"
    using N0 _ M1(2) by (rule e_term_at_sum_lower) simp
  have B: "4 * (arctan ((real W + 3 / 2 - real M) / real N)
      - arctan ((real W + 3 / 2 - real N) / real N))
      \<le> (\<Sum>k = M..<N. e_term_at N (int k - int W)) / real N"
    using N0 MN NW by (rule e_term_at_sum_desc)
  define a where "a = arctan (1 / 2)"
  define a' where "a' = arctan ((real W + 3 / 2 - real M) / real N)"
  define b where "b = arctan ((real (Suc 0) - 1 / 2) / real N)"
  define b' where "b' = arctan ((real W + 3 / 2 - real N) / real N)"
  define S where "S = (\<Sum>k = Suc 0..<M. e_term_at N (int k)) / real N"
  define S' where "S' = (\<Sum>k = M..<N. e_term_at N (int k - int W)) / real N"
  define F where "F = f 0 / real N"
  have h1: "(real M - 1 / 2) / real N = 1 / 2" unfolding rM rN by simp
  have A': "4 * (a - b) \<le> S" using A unfolding h1 a_def b_def S_def .
  have B': "4 * (a' - b') \<le> S'" using B unfolding a'_def b'_def S'_def .
  have "1 / 2 \<le> (real W + 3 / 2 - real M) / real N" unfolding rW rM rN by simp
  then have h2: "a \<le> a'" unfolding a_def a'_def by (rule arctan_monotone')
  have "b \<le> (real (Suc 0) - 1 / 2) / real N"
    unfolding b_def by (rule arctan_le_self) (simp add: rN)
  moreover have "(real (Suc 0) - 1 / 2) / real N = (1 / 2) / 4294967295" unfolding rN by simp
  ultimately have s1: "b \<le> (1 / 2) / 4294967295" by (simp only:)
  have "b' \<le> (real W + 3 / 2 - real N) / real N"
    unfolding b'_def by (rule arctan_le_self) (simp add: rN rW)
  moreover have "(real W + 3 / 2 - real N) / real N = (5 / 2) / 4294967295"
    unfolding rN rW by simp
  ultimately have s2: "b' \<le> (5 / 2) / 4294967295" by (simp only:)
  have f0: "0 \<le> F" unfolding F_def f_def by (simp add: e_term_at_range(1))
  have ah: "pi / 4 + 2 / 15 \<le> 2 * a" unfolding a_def by (rule arctan_one_half)
  have "(\<Sum>k<N. f k) / real N = F + S + S'"
    unfolding split low high F_def S_def S'_def by (simp only: add_divide_distrib)
  moreover have "pi + 8 / 15 - 12 / 4294967295 \<le> F + S + S'"
    using A' B' f0 h2 s1 s2 ah by argo
  ultimately have "pi + 8 / 15 - 12 / 4294967295 \<le> (\<Sum>k<N. f k) / real N" by (simp only:)
  then show ?thesis unfolding f_def N_def by simp
qed

lemma ulo_pow_N: "1 - 1 / 2 ^ 20 \<le> ulo ^ (11 + 4294967295)"
proof -
  have "1 - real (11 + 4294967295) / 2 ^ 53 \<le> ulo ^ (11 + 4294967295)"
    by (rule ulo_pow_lower)
  moreover have "(1::real) - 1 / 2 ^ 20 \<le> 1 - real (11 + 4294967295) / 2 ^ 53" by simp
  ultimately show ?thesis by (rule order_trans[rotated])
qed

lemma wrapped_estimate:
  shows "compute_pi_wrapv 4294967295 = Fin (r_pi_at 4294967295 counter)"
    and "pi + 1 / 2 \<le> r_pi_at 4294967295 counter"
proof -
  define N :: nat where "N = 4294967295"
  define U where "U = ulo ^ (11 + N)"
  define E where "E = (\<Sum>k<N. e_term_at N (counter k)) / real N"
  define r where "r = r_pi_at N counter"
  have n: "1 \<le> N" "N \<le> 2 ^ 32" by (simp_all add: N_def)
  have cf: "\<forall>j<N. \<bar>real_of_int (counter j) - 1 / 2\<bar> \<le> real N"
    unfolding N_def using counter_in_range by blast
  note sh = pi_shadow_at[OF n cf, folded U_def E_def r_def]
  have u: "unat (4294967295::32 word) = N" by (simp add: N_def)
  have "compute_pi_wrapv 4294967295 = Fin r"
    unfolding compute_pi_wrapv_run u by (rule sh(1))
  then show "compute_pi_wrapv 4294967295 = Fin (r_pi_at 4294967295 counter)"
    by (simp only: r_def N_def)
  have E: "pi + 8 / 15 - 12 / 4294967295 \<le> E"
    unfolding E_def N_def using wrapped_sum_lower by simp
  have U: "1 - 1 / 2 ^ 20 \<le> U" unfolding U_def N_def by (rule ulo_pow_N)
  have E0: "0 \<le> pi + 8 / 15 - 12 / 4294967295" using pi_gt_zero by simp
  have "(1 - 1 / 2 ^ 20) * (pi + 8 / 15 - 12 / 4294967295) \<le> U * E"
    using U E E0 by (intro mult_mono) simp_all
  also have "\<dots> \<le> r" by (rule sh(2))
  finally have lo: "(1 - 1 / 2 ^ 20) * (pi + 8 / 15 - 12 / 4294967295) \<le> r" .
  have "pi + 1 / 2 \<le> (1 - 1 / 2 ^ 20) * (pi + 8 / 15 - 12 / 4294967295)"
    using pi_le_16_5 by (simp add: algebra_simps)
  then have "pi + 1 / 2 \<le> r" using lo by (rule order_trans)
  then show "pi + 1 / 2 \<le> r_pi_at 4294967295 counter" by (simp only: r_def N_def)
qed

lemma formula_estimate:
  shows "riemann_pi 4294967295 = Fin (r_pi_at 4294967295 int)"
    and "r_pi_at 4294967295 int \<le> pi + 1 / 100"
proof -
  define N :: nat where "N = 4294967295"
  define U where "U = ulo ^ (11 + N)"
  define E where "E = (\<Sum>k<N. e_term_at N (int k)) / real N"
  define r where "r = r_pi_at N int"
  have n: "1 \<le> N" "N \<le> 2 ^ 32" "2 \<le> N" by (simp_all add: N_def)
  have cf: "\<forall>j<N. \<bar>real_of_int (int j) - 1 / 2\<bar> \<le> real N" by auto
  note sh = pi_shadow_at[OF n(1,2) cf, folded U_def E_def r_def]
  have "riemann_pi N = dmul (pi_sum_at (pi_dh N) int N) (pi_dh N)"
    unfolding riemann_pi_def pi_sum_at_int by (rule dmul_commute)
  then have "riemann_pi N = Fin r" by (simp only: sh(1))
  then show "riemann_pi 4294967295 = Fin (r_pi_at 4294967295 int)"
    by (simp only: r_def N_def)
  have "E \<le> pi + 8 / real N" unfolding E_def by (rule formula_sum_upper[OF n(3)])
  then have E: "E \<le> pi + 8 / 4294967295" by (simp add: N_def)
  have E0: "0 \<le> E" unfolding E_def by (intro divide_nonneg_nonneg sum_nonneg e_term_at_range(1)) simp
  have U: "1 - 1 / 2 ^ 20 \<le> U" unfolding U_def N_def by (rule ulo_pow_N)
  have U0: "0 \<le> U" using U by simp
  have "0 \<le> U * E" using U0 E0 by simp
  then have r0: "0 \<le> r" using sh(2) by simp
  have "r * (1 - 1 / 2 ^ 20) \<le> r * U" using U r0 by (intro mult_left_mono)
  also have "\<dots> \<le> E" by (rule sh(3))
  also have "\<dots> \<le> pi + 8 / 4294967295" by (rule E)
  finally have "r * (1 - 1 / 2 ^ 20) \<le> pi + 8 / 4294967295" .
  then have "r \<le> pi + 1 / 100" using pi_le_16_5 by (simp add: algebra_simps)
  then show "r_pi_at 4294967295 int \<le> pi + 1 / 100" by (simp only: r_def N_def)
qed

lemma wrapv_agrees:
  assumes "unat n \<le> 2147483648"
  shows "compute_pi_wrapv n = riemann_pi (unat n)"
proof -
  have "pi_sum_at dh counter (unat n) = pi_sum_at dh int (unat n)" for dh
    unfolding pi_sum_at_def
  proof (rule foldl_cong[OF refl refl])
    fix a k assume "k \<in> set [0..<unat n]"
    then have "k < 2147483648" using assms by simp
    then show "dadd a (pi_term_at dh (counter k)) = dadd a (pi_term_at dh (int k))"
      by (simp only: counter_low)
  qed
  then show ?thesis
    unfolding compute_pi_wrapv_run riemann_pi_def pi_sum_at_int by (simp only: dmul_commute)
qed

text \<open>
  Claim C3 says that for every positive \<open>n\<close> the function returns exactly \<open>dh * sum\<close>,
  where \<open>dh = 1 / n\<close>, \<open>x\<^sub>i = dh * (i - 0.5)\<close> and the sum of \<open>4 / (1 + x\<^sub>i\<^sup>2)\<close> is accumulated
  from zero in the order \<open>i = 0, \<dots>, n - 1\<close>, every operation in double precision. The
  code does so from \<open>1\<close> to \<^verbatim>\<open>INT_MAX\<close> partitions, and with a wrapping counter also for
  \<open>2 ^ 31\<close>, where the wrapped counter ends the loop. Beyond, the \<^verbatim>\<open>int\<close> counter cannot
  follow the \<^verbatim>\<open>unsigned int\<close> \<open>partitions\<close>: its increment at \<^verbatim>\<open>INT_MAX\<close> is undefined in
  C, and a wrapping counter goes on from \<open>- 2 ^ 31\<close>, so that the sample points are
  \<open>dh * (i - 2 ^ 32 - 0.5)\<close> from \<open>i = 2 ^ 31\<close> on. With \<open>2 ^ 32 - 1\<close> partitions the sum
  of the claim is within \<open>1 / 100\<close> of \<open>pi\<close>, and the value of the wrapping loop is above
  \<open>pi + 1 / 2\<close>.
\<close>

theorem compute_pi_counter_overflow:
  "(0 < n \<and> unat n \<le> 2147483647 \<longrightarrow> compute_pi n = Inr (riemann_pi (unat n)))
   \<and> (0 < n \<and> unat n \<le> 2147483648 \<longrightarrow> compute_pi_wrapv n = riemann_pi (unat n))
   \<and> compute_pi 4294967295 = Inl SignedOverflow
   \<and> (\<exists>r r'. compute_pi_wrapv 4294967295 = Fin r \<and> riemann_pi 4294967295 = Fin r'
         \<and> r' \<le> pi + 1 / 100 \<and> pi + 1 / 2 \<le> r)"
proof (intro conjI impI)
  assume "0 < n \<and> unat n \<le> 2147483647"
  then show "compute_pi n = Inr (riemann_pi (unat n))"
    by (intro compute_pi_is_sum) simp_all
next
  assume "0 < n \<and> unat n \<le> 2147483648"
  then show "compute_pi_wrapv n = riemann_pi (unat n)"
    by (intro wrapv_agrees) simp
next
  show "compute_pi 4294967295 = Inl SignedOverflow"
    by (rule compute_pi_overflow) simp
next
  show "\<exists>r r'. compute_pi_wrapv 4294967295 = Fin r \<and> riemann_pi 4294967295 = Fin r'
      \<and> r' \<le> pi + 1 / 100 \<and> pi + 1 / 2 \<le> r"
    using wrapped_estimate formula_estimate by blast
qed

text \<open>Two partitions, with either counter.\<close>

theorem compute_pi_counter_overflow_witness:
  "(0::32 word) < 2 \<and> unat (2::32 word) \<le> 2147483647
   \<and> compute_pi 2 = Inr (Fin (4238682002231055 / 1125899906842624))
   \<and> compute_pi_wrapv 2 = Fin (4238682002231055 / 1125899906842624)"
proof -
  have r: "riemann_pi (unat (2::32 word)) = Fin (4238682002231055 / 1125899906842624)"
    using estimate_2 by (simp add: riemann_pi_def dmul_commute)
  have "compute_pi 2 = Inr (riemann_pi (unat (2::32 word)))"
    using compute_pi_counter_overflow[of 2, THEN conjunct1] by simp
  moreover have "compute_pi_wrapv 2 = riemann_pi (unat (2::32 word))"
    using compute_pi_counter_overflow[of 2, THEN conjunct2, THEN conjunct1] by simp
  ultimately show ?thesis by (simp only: r) simp
qed

section \<open>The particle record\<close>

text \<open>
  Claim C9. Whenever the allocation succeeds, whatever the allocated object holds,
  \<^verbatim>\<open>Particle_new\<close> returns a particle, and that particle, before any argument is applied
  to it, has \<open>id = 0\<close>, \<open>mass = 1.0\<close>, \<open>x = 0.0\<close> and \<open>y = 0.0\<close>. When the allocation
  fails there is no particle: the function returns \<^verbatim>\<open>NULL\<close>.
\<close>

theorem Particle_new_defaults:
  "Particle_new (Some self) = Some \<lparr>id_p = 0, x_p = Fin 0, y_p = Fin 0, mass_p = Fin 1\<rparr>
   \<and> Particle_new None = None"
  by (simp add: Particle_new_def)

end
